theory Spec2Isabelle
  imports Main "HOL-Library.Word" "HOL-Library.Monad_Syntax"
begin

unbundle bit_operations_syntax

section \<open>adlist: the generic doubly linked list (adlist.h, adlist.c)\<close>

text \<open>
  Pointers are 64-bit addresses, \<open>0\<close> is \<open>NULL\<close>. The C heap is split by type:
  one partial map from addresses to \<open>listNode\<close> structs and one to \<open>list\<close> structs.
  A read or write through a pointer that is not allocated is a memory fault; every
  function returns \<open>None\<close> for it.

  \<open>zmalloc\<close> and \<open>zfree\<close> are not part of the repository (zmalloc.h). The
  allocator is a parameter of the state: \<open>zm_results\<close> lists the results of the coming
  \<open>zmalloc\<close> calls in order (\<open>0\<close> for a failed allocation; an exhausted list fails
  too). That an address handed out is fresh is a hypothesis of the theorems below, not
  of the functions.

  The methods \<open>dup\<close>, \<open>free\<close> and \<open>match\<close> are function pointers into caller code.
  They act on a caller-owned part of the state, \<open>world\<close>, of an arbitrary type
  \<open>'w\<close>, and cannot reach the list's own nodes.
\<close>

type_synonym ptr = "64 word"

text \<open>\<open>struct listNode\<close>; the fields \<open>next\<close> and \<open>value\<close> are reserved words here.\<close>

record listNode =
  n_prev :: ptr
  n_next :: ptr
  n_value :: ptr

text \<open>\<open>struct list\<close>.\<close>

record 'w adlist =
  head :: ptr
  tail :: ptr
  dup :: "(ptr \<Rightarrow> 'w \<Rightarrow> ptr \<times> 'w) option"
  free :: "(ptr \<Rightarrow> 'w \<Rightarrow> 'w) option"
  match :: "(ptr \<Rightarrow> ptr \<Rightarrow> 'w \<Rightarrow> int \<times> 'w) option"
  len :: "64 word"

record 'w mem =
  node_mem :: "ptr \<rightharpoonup> listNode"
  list_mem :: "ptr \<rightharpoonup> 'w adlist"
  zm_results :: "ptr list"
  world :: 'w

definition zmalloc :: "'w mem \<Rightarrow> ptr \<times> 'w mem" where
  "zmalloc s = (case zm_results s of [] \<Rightarrow> (0, s) | p # ps \<Rightarrow> (p, s\<lparr>zm_results := ps\<rparr>))"

text \<open>\<open>zfree\<close> of a node and of a list header.\<close>

definition zfree_node :: "ptr \<Rightarrow> 'w mem \<Rightarrow> 'w mem" where
  "zfree_node p s = s\<lparr>node_mem := (node_mem s)(p := None)\<rparr>"

definition zfree_list :: "ptr \<Rightarrow> 'w mem \<Rightarrow> 'w mem" where
  "zfree_list p s = s\<lparr>list_mem := (list_mem s)(p := None)\<rparr>"

text \<open>The first write to a freshly allocated struct sets all its fields.\<close>

definition node_init :: "ptr \<Rightarrow> listNode \<Rightarrow> 'w mem \<Rightarrow> 'w mem" where
  "node_init p n s = s\<lparr>node_mem := (node_mem s)(p \<mapsto> n)\<rparr>"

definition list_init :: "ptr \<Rightarrow> 'w adlist \<Rightarrow> 'w mem \<Rightarrow> 'w mem" where
  "list_init p L s = s\<lparr>list_mem := (list_mem s)(p \<mapsto> L)\<rparr>"

text \<open>\<open>p->field = e\<close> on an allocated struct: a fault when \<open>p\<close> is not allocated.\<close>

definition node_store :: "ptr \<Rightarrow> (listNode \<Rightarrow> listNode) \<Rightarrow> 'w mem \<Rightarrow> 'w mem option" where
  "node_store p f s =
     (case node_mem s p of None \<Rightarrow> None
      | Some n \<Rightarrow> Some (s\<lparr>node_mem := (node_mem s)(p \<mapsto> f n)\<rparr>))"

definition list_store :: "ptr \<Rightarrow> ('w adlist \<Rightarrow> 'w adlist) \<Rightarrow> 'w mem \<Rightarrow> 'w mem option" where
  "list_store p f s =
     (case list_mem s p of None \<Rightarrow> None
      | Some L \<Rightarrow> Some (s\<lparr>list_mem := (list_mem s)(p \<mapsto> f L)\<rparr>))"

text \<open>\<open>listCreate\<close>: returns \<open>NULL\<close> when the allocation fails.\<close>

definition listCreate :: "'w mem \<Rightarrow> ptr \<times> 'w mem" where
  "listCreate s =
     (case zmalloc s of (list, s1) \<Rightarrow>
        if list = 0 then (0, s1)
        else (list, list_init list
                \<lparr>head = 0, tail = 0, dup = None, free = None, match = None, len = 0\<rparr> s1))"

text \<open>\<open>listAddNodeHead\<close>: the result is the returned pointer and the new state.\<close>

definition listAddNodeHead :: "'w mem \<Rightarrow> ptr \<Rightarrow> ptr \<Rightarrow> (ptr \<times> 'w mem) option" where
  "listAddNodeHead s list v =
     (case zmalloc s of (node, s1) \<Rightarrow>
        if node = 0 then Some (0, s1)
        else do {
          L \<leftarrow> list_mem s1 list;
          s2 \<leftarrow> (if len L = 0 then do {
                   s' \<leftarrow> list_store list (\<lambda>L. L\<lparr>head := node, tail := node\<rparr>) s1;
                   Some (node_init node \<lparr>n_prev = 0, n_next = 0, n_value = v\<rparr> s')
                 } else do {
                   s' \<leftarrow> Some (node_init node \<lparr>n_prev = 0, n_next = head L, n_value = v\<rparr> s1);
                   s'' \<leftarrow> node_store (head L) (\<lambda>n. n\<lparr>n_prev := node\<rparr>) s';
                   list_store list (\<lambda>L. L\<lparr>head := node\<rparr>) s''
                 });
          s3 \<leftarrow> list_store list (\<lambda>L. L\<lparr>len := len L + 1\<rparr>) s2;
          Some (list, s3)
        })"

text \<open>\<open>listAddNodeTail\<close>.\<close>

definition listAddNodeTail :: "'w mem \<Rightarrow> ptr \<Rightarrow> ptr \<Rightarrow> (ptr \<times> 'w mem) option" where
  "listAddNodeTail s list v =
     (case zmalloc s of (node, s1) \<Rightarrow>
        if node = 0 then Some (0, s1)
        else do {
          L \<leftarrow> list_mem s1 list;
          s2 \<leftarrow> (if len L = 0 then do {
                   s' \<leftarrow> list_store list (\<lambda>L. L\<lparr>head := node, tail := node\<rparr>) s1;
                   Some (node_init node \<lparr>n_prev = 0, n_next = 0, n_value = v\<rparr> s')
                 } else do {
                   s' \<leftarrow> Some (node_init node \<lparr>n_prev = tail L, n_next = 0, n_value = v\<rparr> s1);
                   s'' \<leftarrow> node_store (tail L) (\<lambda>n. n\<lparr>n_next := node\<rparr>) s';
                   list_store list (\<lambda>L. L\<lparr>tail := node\<rparr>) s''
                 });
          s3 \<leftarrow> list_store list (\<lambda>L. L\<lparr>len := len L + 1\<rparr>) s2;
          Some (list, s3)
        })"

text \<open>
  \<open>listJoin\<close>. Every statement reads the fields it uses from the state it runs in, so
  the model also says what the code does when \<open>l\<close> and \<open>o\<close> are the same list.
\<close>

definition listJoin :: "'w mem \<Rightarrow> ptr \<Rightarrow> ptr \<Rightarrow> 'w mem option" where
  "listJoin s l o' = do {
     L \<leftarrow> list_mem s l;
     O1 \<leftarrow> list_mem s o';
     s1 \<leftarrow> (if head O1 \<noteq> 0 then node_store (head O1) (\<lambda>n. n\<lparr>n_prev := tail L\<rparr>) s else Some s);
     s2 \<leftarrow> (if tail L \<noteq> 0 then node_store (tail L) (\<lambda>n. n\<lparr>n_next := head O1\<rparr>) s1
            else list_store l (\<lambda>L. L\<lparr>head := head O1\<rparr>) s1);
     O2 \<leftarrow> list_mem s2 o';
     s3 \<leftarrow> (if tail O2 \<noteq> 0 then list_store l (\<lambda>L. L\<lparr>tail := tail O2\<rparr>) s2 else Some s2);
     O3 \<leftarrow> list_mem s3 o';
     s4 \<leftarrow> list_store l (\<lambda>L. L\<lparr>len := len L + len O3\<rparr>) s3;
     s5 \<leftarrow> list_store o' (\<lambda>L. L\<lparr>head := 0, tail := 0\<rparr>) s4;
     list_store o' (\<lambda>L. L\<lparr>len := 0\<rparr>) s5
   }"

text \<open>The iterator: \<open>struct listIter\<close> and the direction constants of adlist.h.\<close>

record listIter =
  it_next :: ptr
  direction :: int

definition AL_START_HEAD :: int where "AL_START_HEAD = 0"

definition AL_START_TAIL :: int where "AL_START_TAIL = 1"

definition listRewind :: "'w mem \<Rightarrow> ptr \<Rightarrow> listIter option" where
  "listRewind s list = do {
     L \<leftarrow> list_mem s list;
     Some \<lparr>it_next = head L, direction = AL_START_HEAD\<rparr>
   }"

text \<open>\<open>listNext\<close>: the node returned (\<open>NULL\<close> at the end) and the advanced iterator.\<close>

definition listNext :: "'w mem \<Rightarrow> listIter \<Rightarrow> (ptr \<times> listIter) option" where
  "listNext s iter =
     (let current = it_next iter in
      if current \<noteq> 0 then do {
        n \<leftarrow> node_mem s current;
        Some (current, iter\<lparr>it_next := (if direction iter = AL_START_HEAD then n_next n else n_prev n)\<rparr>)
      } else Some (current, iter))"

text \<open>
  \<open>listEmpty\<close>. The loop \<open>while(len--)\<close> runs \<open>len\<close> times on a local copy of the
  length: the first argument counts it down.
\<close>

fun listEmpty_loop :: "nat \<Rightarrow> ptr \<Rightarrow> ptr \<Rightarrow> 'w mem \<Rightarrow> 'w mem option" where
  "listEmpty_loop 0 list current s = Some s"
| "listEmpty_loop (Suc k) list current s = do {
     n \<leftarrow> node_mem s current;
     L \<leftarrow> list_mem s list;
     s1 \<leftarrow> Some (case free L of None \<Rightarrow> s | Some f \<Rightarrow> s\<lparr>world := f (n_value n) (world s)\<rparr>);
     listEmpty_loop k list (n_next n) (zfree_node current s1)
   }"

definition listEmpty :: "'w mem \<Rightarrow> ptr \<Rightarrow> 'w mem option" where
  "listEmpty s list = do {
     L \<leftarrow> list_mem s list;
     s1 \<leftarrow> listEmpty_loop (unat (len L)) list (head L) s;
     s2 \<leftarrow> list_store list (\<lambda>L. L\<lparr>head := 0, tail := 0\<rparr>) s1;
     list_store list (\<lambda>L. L\<lparr>len := 0\<rparr>) s2
   }"

definition listRelease :: "'w mem \<Rightarrow> ptr \<Rightarrow> 'w mem option" where
  "listRelease s list = do {
     s1 \<leftarrow> listEmpty s list;
     Some (zfree_list list s1)
   }"

text \<open>
  \<open>listDup\<close>. The loop follows \<open>next\<close> pointers until \<open>NULL\<close>, so on a cyclic chain it
  need not end by itself: it is a partial function, \<open>None\<close> when it does not return
  (or faults). The result is the returned pointer and the new state.
\<close>

partial_function (option) listDup_loop :: "'w mem \<Rightarrow> ptr \<Rightarrow> listIter \<Rightarrow> (ptr \<times> 'w mem) option" where
  "listDup_loop s copy iter = do {
     (node, iter') \<leftarrow> listNext s iter;
     if node = 0 then Some (copy, s)
     else do {
       n \<leftarrow> node_mem s node;
       C \<leftarrow> list_mem s copy;
       (v, s1) \<leftarrow> Some (case dup C of
                         None \<Rightarrow> (n_value n, s)
                       | Some f \<Rightarrow> (case f (n_value n) (world s) of (v, w) \<Rightarrow> (v, s\<lparr>world := w\<rparr>)));
       if dup C \<noteq> None \<and> v = 0 then do {
         s2 \<leftarrow> listRelease s1 copy;
         Some (0, s2)
       } else do {
         (r, s2) \<leftarrow> listAddNodeTail s1 copy v;
         if r = 0 then do {
           s3 \<leftarrow> listRelease s2 copy;
           Some (0, s3)
         } else listDup_loop s2 copy iter'
       }
     }
   }"

definition listDup :: "'w mem \<Rightarrow> ptr \<Rightarrow> (ptr \<times> 'w mem) option" where
  "listDup s orig =
     (case listCreate s of (copy, s1) \<Rightarrow>
        if copy = 0 then Some (0, s1)
        else do {
          O1 \<leftarrow> list_mem s1 orig;
          s2 \<leftarrow> list_store copy (\<lambda>C. C\<lparr>dup := dup O1\<rparr>) s1;
          O2 \<leftarrow> list_mem s2 orig;
          s3 \<leftarrow> list_store copy (\<lambda>C. C\<lparr>free := free O2\<rparr>) s2;
          O3 \<leftarrow> list_mem s3 orig;
          s4 \<leftarrow> list_store copy (\<lambda>C. C\<lparr>match := match O3\<rparr>) s3;
          iter \<leftarrow> listRewind s4 orig;
          listDup_loop s4 copy iter
        })"

subsection \<open>The abstraction: a list header and the sequence of its nodes\<close>

text \<open>
  \<open>dll_seg h p ns q\<close>: the non-null addresses \<open>ns\<close> are allocated nodes linked in
  this order, the first one's \<open>prev\<close> is \<open>p\<close> and the last one's \<open>next\<close> is \<open>q\<close>.
\<close>

fun dll_seg :: "(ptr \<rightharpoonup> listNode) \<Rightarrow> ptr \<Rightarrow> ptr list \<Rightarrow> ptr \<Rightarrow> bool" where
  "dll_seg h p [] q = True"
| "dll_seg h p (a # as) q =
     (case h a of None \<Rightarrow> False
      | Some n \<Rightarrow> a \<noteq> 0 \<and> n_prev n = p \<and> n_next n = (case as of [] \<Rightarrow> q | b # _ \<Rightarrow> b)
                 \<and> dll_seg h a as q)"

text \<open>
  \<open>is_list s l ns\<close>: \<open>l\<close> is an allocated list header whose nodes, head to tail, are
  \<open>ns\<close>, with \<open>len\<close> their number.
\<close>

definition is_list :: "'w mem \<Rightarrow> ptr \<Rightarrow> ptr list \<Rightarrow> bool" where
  "is_list s l ns =
     (case list_mem s l of None \<Rightarrow> False
      | Some L \<Rightarrow> head L = (case ns of [] \<Rightarrow> 0 | a # _ \<Rightarrow> a)
                 \<and> tail L = (if ns = [] then 0 else last ns)
                 \<and> unat (len L) = length ns
                 \<and> distinct ns
                 \<and> dll_seg (node_mem s) 0 ns 0)"

text \<open>The values held by the nodes \<open>ns\<close>, in order.\<close>

definition node_values :: "'w mem \<Rightarrow> ptr list \<Rightarrow> ptr list" where
  "node_values s ns = map (\<lambda>a. case node_mem s a of None \<Rightarrow> 0 | Some n \<Rightarrow> n_value n) ns"

text \<open>The accessor macros of adlist.h; \<open>None\<close> is a read through an unallocated pointer.\<close>

definition listLength :: "'w mem \<Rightarrow> ptr \<Rightarrow> 64 word option" where
  "listLength s l = map_option len (list_mem s l)"

definition listFirst :: "'w mem \<Rightarrow> ptr \<Rightarrow> ptr option" where
  "listFirst s l = map_option head (list_mem s l)"

definition listLast :: "'w mem \<Rightarrow> ptr \<Rightarrow> ptr option" where
  "listLast s l = map_option tail (list_mem s l)"

definition listNodeValue :: "'w mem \<Rightarrow> ptr \<Rightarrow> ptr option" where
  "listNodeValue s n = map_option n_value (node_mem s n)"

text \<open>
  The allocator hands out fresh memory: the non-null results to come are distinct and
  not allocated now.
\<close>

definition fresh_allocs :: "'w mem \<Rightarrow> bool" where
  "fresh_allocs s =
     (let ps = filter (\<lambda>p. p \<noteq> 0) (zm_results s)
      in distinct ps \<and> set ps \<inter> dom (node_mem s) = {} \<and> set ps \<inter> dom (list_mem s) = {})"

text \<open>
  What duplicating a sequence of values with a \<open>dup\<close> method yields: the method is called
  on each value in order, each call in the caller state the previous one left.
\<close>

fun dup_values :: "(ptr \<Rightarrow> 'w \<Rightarrow> ptr \<times> 'w) \<Rightarrow> ptr list \<Rightarrow> 'w \<Rightarrow> ptr list \<times> 'w" where
  "dup_values f [] w = ([], w)"
| "dup_values f (v # vs) w =
     (case f v w of (v', w') \<Rightarrow> (case dup_values f vs w' of (vs', w'') \<Rightarrow> (v' # vs', w'')))"

text \<open>An example state: the list header at address 16 holds one node, at address 32, with
  value 5; the allocator will hand out address 48 next.\<close>

definition ex_mem :: "unit mem" where
  "ex_mem = \<lparr>node_mem = [32 \<mapsto> \<lparr>n_prev = 0, n_next = 0, n_value = 5\<rparr>],
             list_mem = [16 \<mapsto> \<lparr>head = 32, tail = 32, dup = None, free = None, match = None, len = 1\<rparr>],
             zm_results = [48], world = ()\<rparr>"

text \<open>A second example state: the list at 16 holds the nodes 32 and 48 (values 5 and 6),
  the list at 24 holds the node 64 (value 7).\<close>

definition ex_join_mem :: "unit mem" where
  "ex_join_mem = \<lparr>node_mem = [32 \<mapsto> \<lparr>n_prev = 0, n_next = 48, n_value = 5\<rparr>,
                              48 \<mapsto> \<lparr>n_prev = 32, n_next = 0, n_value = 6\<rparr>,
                              64 \<mapsto> \<lparr>n_prev = 0, n_next = 0, n_value = 7\<rparr>],
             list_mem = [16 \<mapsto> \<lparr>head = 32, tail = 48, dup = None, free = None, match = None, len = 2\<rparr>,
                         24 \<mapsto> \<lparr>head = 64, tail = 64, dup = None, free = None, match = None, len = 1\<rparr>],
             zm_results = [], world = ()\<rparr>"

text \<open>A third example state: the list at 16 holds the nodes 32 and 48 (values 5 and 6) and
  has a \<open>dup\<close> method, which returns its argument plus 100 and counts its calls in the
  caller state; the allocator will hand out 80, 96 and 112.\<close>

definition ex_dup_mem :: "nat mem" where
  "ex_dup_mem = \<lparr>node_mem = [32 \<mapsto> \<lparr>n_prev = 0, n_next = 48, n_value = 5\<rparr>,
                             48 \<mapsto> \<lparr>n_prev = 32, n_next = 0, n_value = 6\<rparr>],
             list_mem = [16 \<mapsto> \<lparr>head = 32, tail = 48, dup = Some (\<lambda>v w. (v + 100, Suc w)),
                                  free = None, match = None, len = 2\<rparr>],
             zm_results = [80, 96, 112], world = 0\<rparr>"

section \<open>dict.h: the hash table's types and macros\<close>

text \<open>
  \<open>struct dictEntry\<close>. The union \<open>v\<close> is one 64-bit cell, read as \<open>val\<close>, \<open>u64\<close>, \<open>s64\<close> or
  \<open>d\<close>. The \<open>next\<close> link is the order of the entries in a chain, which is a list.
\<close>

record dictEntry =
  key :: ptr
  v :: "64 word"

text \<open>
  \<open>struct dictType\<close>: the behaviours a caller injects; an unset function pointer is
  \<open>None\<close>. The hash, the comparison and the duplication methods are functions of their
  arguments; the destructors act on the caller's state \<open>'w\<close>.
\<close>

record 'w dictType =
  hashFunction :: "ptr \<Rightarrow> 64 word"
  keyDup :: "(ptr \<Rightarrow> ptr \<Rightarrow> ptr) option"
  valDup :: "(ptr \<Rightarrow> ptr \<Rightarrow> ptr) option"
  keyCompare :: "(ptr \<Rightarrow> ptr \<Rightarrow> ptr \<Rightarrow> int) option"
  keyDestructor :: "(ptr \<Rightarrow> ptr \<Rightarrow> 'w \<Rightarrow> 'w) option"
  valDestructor :: "(ptr \<Rightarrow> ptr \<Rightarrow> 'w \<Rightarrow> 'w) option"

text \<open>
  \<open>struct dictht\<close>: \<open>table\<close> is the array of chains (empty when unallocated). \<open>size\<close> and
  \<open>used\<close> count slots and entries held in memory and are natural numbers.
\<close>

record dictht =
  table :: "dictEntry list list"
  size_ht :: nat
  sizemask :: "64 word"
  used :: nat

text \<open>\<open>struct dict\<close>; \<open>ht0\<close> and \<open>ht1\<close> are \<open>ht[0]\<close> and \<open>ht[1]\<close>.\<close>

record 'w dict =
  type :: "'w dictType"
  privdata :: ptr
  ht0 :: dictht
  ht1 :: dictht
  rehashidx :: int
  iterators :: nat

definition DICT_OK :: int where "DICT_OK = 0"

definition DICT_ERR :: int where "DICT_ERR = 1"

definition DICT_HT_INITIAL_SIZE :: nat where "DICT_HT_INITIAL_SIZE = 4"

subsection \<open>The macros\<close>

definition dictFreeVal :: "'w dict \<Rightarrow> dictEntry \<Rightarrow> 'w \<Rightarrow> 'w" where
  "dictFreeVal d entry w =
     (case valDestructor (type d) of Some f \<Rightarrow> f (privdata d) (v entry) w | None \<Rightarrow> w)"

definition dictSetVal :: "'w dict \<Rightarrow> dictEntry \<Rightarrow> ptr \<Rightarrow> dictEntry" where
  "dictSetVal d entry val =
     (case valDup (type d) of Some f \<Rightarrow> entry\<lparr>v := f (privdata d) val\<rparr>
      | None \<Rightarrow> entry\<lparr>v := val\<rparr>)"


definition dictSetKey :: "'w dict \<Rightarrow> dictEntry \<Rightarrow> ptr \<Rightarrow> dictEntry" where
  "dictSetKey d entry k =
     (case keyDup (type d) of Some f \<Rightarrow> entry\<lparr>key := f (privdata d) k\<rparr>
      | None \<Rightarrow> entry\<lparr>key := k\<rparr>)"

text \<open>The result is a C truth value: \<open>key1 == key2\<close> is 1 or 0.\<close>

definition dictCompareKeys :: "'w dict \<Rightarrow> ptr \<Rightarrow> ptr \<Rightarrow> int" where
  "dictCompareKeys d key1 key2 =
     (case keyCompare (type d) of Some f \<Rightarrow> f (privdata d) key1 key2
      | None \<Rightarrow> (if key1 = key2 then 1 else 0))"

definition dictHashKey :: "'w dict \<Rightarrow> ptr \<Rightarrow> 64 word" where
  "dictHashKey d k = hashFunction (type d) k"

definition dictGetKey :: "dictEntry \<Rightarrow> ptr" where
  "dictGetKey he = key he"

definition dictGetVal :: "dictEntry \<Rightarrow> ptr" where
  "dictGetVal he = v he"

text \<open>The two sums are \<open>unsigned long\<close> additions, which wrap around at \<open>2 ^ 64\<close>.\<close>

definition dictSlots :: "'w dict \<Rightarrow> nat" where
  "dictSlots d = (size_ht (ht0 d) + size_ht (ht1 d)) mod 2 ^ 64"

definition dictSize :: "'w dict \<Rightarrow> nat" where
  "dictSize d = (used (ht0 d) + used (ht1 d)) mod 2 ^ 64"

definition dictIsRehashing :: "'w dict \<Rightarrow> bool" where
  "dictIsRehashing d = (rehashidx d \<noteq> -1)"

text \<open>An example dictionary type with every optional behaviour unset; the hash of a key
  is the key.\<close>

definition ex_type :: "nat dictType" where
  "ex_type = \<lparr>hashFunction = (\<lambda>k. k), keyDup = None, valDup = None, keyCompare = None,
              keyDestructor = None, valDestructor = None\<rparr>"

section \<open>The dictionary's operations\<close>

text \<open>
  dict.h declares the operations; their bodies (dict.c) are not among the repository's
  files. Each operation below is modelled from the specification's description of it
  (sections 3 and 4 of the spec), over the types of dict.h above. Allocation of entries
  and slot arrays succeeds in this model.
\<close>

text \<open>Modelled from the spec: the policy constants dict.c would hold. Section 4.3 names
  a high-water ratio for growth, a fail-safe ratio that forces growth while growth is
  administratively disabled, a low-water ratio for shrinking and a bound on the empty
  buckets one migration call may skip ("e.g. 10"), and section 9 asks for them to be
  tunable; they are the fields of a policy every operation takes.\<close>

record policy =
  grow_ratio :: nat
  force_ratio :: nat
  shrink_ratio :: nat
  can_resize :: bool
  empty_visits :: nat

text \<open>Modelled from the spec: an unallocated slot array ("both slot arrays unallocated,
  used = 0"); the body of dict.c that resets a \<open>dictht\<close> is missing.\<close>

definition ht_reset :: dictht where
  "ht_reset = \<lparr>table = [], size_ht = 0, sizemask = 0, used = 0\<rparr>"

text \<open>Modelled from the spec: a freshly allocated slot array of \<open>n\<close> empty chains with
  "mask = size - 1"; the allocating code of dict.c is missing.\<close>

definition ht_alloc :: "nat \<Rightarrow> dictht" where
  "ht_alloc n = \<lparr>table = replicate n [], size_ht = n, sizemask = of_nat (n - 1), used = 0\<rparr>"

text \<open>Modelled from the spec: \<open>dictCreate\<close>, "create(behaviors, context): empty controller,
  both slot arrays unallocated"; the rehash cursor is the sentinel \<open>-1\<close> of dict.h's
  \<open>dictIsRehashing\<close> and no safe iterator is live.\<close>

definition dictCreate :: "'w dictType \<Rightarrow> ptr \<Rightarrow> 'w dict" where
  "dictCreate t pd =
     \<lparr>type = t, privdata = pd, ht0 = ht_reset, ht1 = ht_reset, rehashidx = -1, iterators = 0\<rparr>"

text \<open>Modelled from the spec: "the next power of two \<ge> n", by doubling from \<open>i\<close>; the
  helper of dict.c that computes it is missing.\<close>

function dictNextPower :: "nat \<Rightarrow> nat \<Rightarrow> nat" where
  "dictNextPower i n = (if n \<le> i \<or> i = 0 then i else dictNextPower (2 * i) n)"
  by pat_completeness auto
termination
  by (relation "measure (\<lambda>(i, n). n - i)") auto

declare dictNextPower.simps [simp del]

text \<open>Modelled from the spec: the bucket of a key in a slot array, "hash(key) & mask".\<close>

definition bucket :: "'w dict \<Rightarrow> dictht \<Rightarrow> ptr \<Rightarrow> nat" where
  "bucket d h k = unat (dictHashKey d k AND sizemask h)"

text \<open>Modelled from the spec: the chain at a slot; an unallocated array has no chain to
  probe.\<close>

definition chain_at :: "dictht \<Rightarrow> nat \<Rightarrow> dictEntry list" where
  "chain_at h i = (if i < length (table h) then table h ! i else [])"

text \<open>Modelled from the spec: probing one chain for a key, with the comparison macro of
  dict.h; the first match from the chain head is the entry found.\<close>

definition chain_find :: "'w dict \<Rightarrow> ptr \<Rightarrow> dictEntry list \<Rightarrow> dictEntry option" where
  "chain_find d k c = find (\<lambda>e. dictCompareKeys d k (key e) \<noteq> 0) c"

text \<open>Modelled from the spec: probing one slot array for a key.\<close>

definition ht_find :: "'w dict \<Rightarrow> dictht \<Rightarrow> ptr \<Rightarrow> dictEntry option" where
  "ht_find d h k = chain_find d k (chain_at h (bucket d h k))"

text \<open>Modelled from the spec: the probe of \<open>find\<close>, "if not rehashing, probe table[0] only;
  if rehashing, probe table[0] first, then table[1]".\<close>

definition dict_lookup :: "'w dict \<Rightarrow> ptr \<Rightarrow> dictEntry option" where
  "dict_lookup d k =
     (case ht_find d (ht0 d) k of
        Some e \<Rightarrow> Some e
      | None \<Rightarrow> if dictIsRehashing d then ht_find d (ht1 d) k else None)"

text \<open>Modelled from the spec: linking an entry "at the head of that chain" of a slot
  array, which then holds one entry more.\<close>

definition link_head :: "dictEntry \<Rightarrow> nat \<Rightarrow> dictht \<Rightarrow> dictht" where
  "link_head e i h = h\<lparr>table := (table h)[i := e # chain_at h i], used := used h + 1\<rparr>"

text \<open>Modelled from the spec: migrating the bucket at the rehash cursor, "unlink every
  entry in that bucket, recompute each entry's new bucket index against table[1]'s mask,
  and relink it at the head of that chain in table[1]. Advance rehash_cursor."\<close>

definition rehash_bucket :: "'w dict \<Rightarrow> 'w dict" where
  "rehash_bucket d =
     (let i = nat (rehashidx d);
          c = chain_at (ht0 d) i;
          h1 = fold (\<lambda>e h. link_head e (bucket d h (key e)) h) c (ht1 d);
          h0 = (ht0 d)\<lparr>table := (table (ht0 d))[i := []], used := used (ht0 d) - length c\<rparr>
      in d\<lparr>ht0 := h0, ht1 := h1, rehashidx := rehashidx d + 1\<rparr>)"

text \<open>Modelled from the spec: the end of a rehash, "table[0] is discarded, table[1]
  becomes the new table[0], table[1] is reset to empty, rehash_cursor returns to the
  sentinel".\<close>

definition rehash_finish :: "'w dict \<Rightarrow> 'w dict" where
  "rehash_finish d = d\<lparr>ht0 := ht1 d, ht1 := ht_reset, rehashidx := -1\<rparr>"

text \<open>Modelled from the spec: one migration step. It skips empty buckets, migrates the
  first non-empty one, and ends the rehash "when rehash_cursor reaches table[0].size". The
  first argument is the number of empty buckets the call may still visit; when it is used
  up the call is aborted, which the returned flag says.\<close>

fun rehash_step :: "nat \<Rightarrow> 'w dict \<Rightarrow> bool \<times> 'w dict" where
  "rehash_step 0 d = (True, d)"
| "rehash_step (Suc n) d =
     (if int (size_ht (ht0 d)) \<le> rehashidx d then (False, rehash_finish d)
      else if chain_at (ht0 d) (nat (rehashidx d)) = []
      then rehash_step n (d\<lparr>rehashidx := rehashidx d + 1\<rparr>)
      else (let d' = rehash_bucket d
            in (False, if int (size_ht (ht0 d')) \<le> rehashidx d' then rehash_finish d' else d')))"

text \<open>Modelled from the spec: the loop of \<open>dictRehash\<close>, "do N steps": it stops when the
  rehash is complete, when a step was aborted, or after \<open>n\<close> steps.\<close>

fun dictRehash_loop :: "nat \<Rightarrow> nat \<Rightarrow> 'w dict \<Rightarrow> 'w dict" where
  "dictRehash_loop ev 0 d = d"
| "dictRehash_loop ev (Suc n) d =
     (if \<not> dictIsRehashing d then d
      else (case rehash_step ev d of
              (True, d') \<Rightarrow> d'
            | (False, d') \<Rightarrow> dictRehash_loop ev n d'))"

text \<open>Modelled from the spec: \<open>dictRehash\<close>, with the pause condition "if
  active_iterators > 0, no migration step runs".\<close>

definition dictRehash :: "policy \<Rightarrow> 'w dict \<Rightarrow> nat \<Rightarrow> 'w dict" where
  "dictRehash pol d n = (if 0 < iterators d then d else dictRehash_loop (empty_visits pol) n d)"

text \<open>Modelled from the spec: the single step of rehashing an operation performs first.\<close>

definition dictRehashStep :: "policy \<Rightarrow> 'w dict \<Rightarrow> 'w dict" where
  "dictRehashStep pol d = dictRehash pol d 1"

text \<open>Modelled from the spec: \<open>dictFind\<close>, "a single step of rehashing is performed first,
  as a side effect, unless the controller is paused"; the result is the entry found, if
  any, and the dictionary after the step.\<close>

definition dictFind :: "policy \<Rightarrow> 'w dict \<Rightarrow> ptr \<Rightarrow> dictEntry option \<times> 'w dict" where
  "dictFind pol d k = (let d1 = dictRehashStep pol d in (dict_lookup d1 k, d1))"

text \<open>Modelled from the spec: starting a rehash, "allocate table[1] ..., set
  rehash_cursor = 0".\<close>

definition start_rehash :: "nat \<Rightarrow> 'w dict \<Rightarrow> 'w dict" where
  "start_rehash n d = d\<lparr>ht1 := ht_alloc n, rehashidx := 0\<rparr>"

text \<open>Modelled from the spec: the capacity check after an insertion, "if used/size exceeds
  a high-water ratio (or unconditionally if the ratio is extreme and growth is
  administratively disabled), and no rehash is currently in progress, allocate table[1]
  sized to the next power of two \<ge> max(used*2, 4)".\<close>

definition expand_if_needed :: "policy \<Rightarrow> 'w dict \<Rightarrow> 'w dict" where
  "expand_if_needed pol d =
     (if \<not> dictIsRehashing d
         \<and> grow_ratio pol * size_ht (ht0 d) < used (ht0 d)
         \<and> (can_resize pol \<or> force_ratio pol * size_ht (ht0 d) < used (ht0 d))
      then start_rehash (dictNextPower 1 (max (2 * used (ht0 d)) DICT_HT_INITIAL_SIZE)) d
      else d)"

text \<open>Modelled from the spec: inserting a new entry, "inserts at the chain head of the
  currently active table: table[1] while rehashing is in progress, else table[0].
  Triggers a capacity check after insertion." The spec does not say when the first slot
  array is allocated; here a dictionary whose table[0] is unallocated allocates it, with
  the initial size of dict.h, before the entry is linked.\<close>

definition dict_link :: "policy \<Rightarrow> 'w dict \<Rightarrow> dictEntry \<Rightarrow> 'w dict" where
  "dict_link pol d e =
     (let d1 = (if size_ht (ht0 d) = 0 then d\<lparr>ht0 := ht_alloc DICT_HT_INITIAL_SIZE\<rparr> else d);
          d2 = (if dictIsRehashing d1
                then d1\<lparr>ht1 := link_head e (bucket d1 (ht1 d1) (key e)) (ht1 d1)\<rparr>
                else d1\<lparr>ht0 := link_head e (bucket d1 (ht0 d1) (key e)) (ht0 d1)\<rparr>)
      in expand_if_needed pol d2)"

text \<open>Modelled from the spec: \<open>dictAdd\<close>, "fails with KeyExists if find locates the key
  already. Otherwise allocates an Entry, duplicates the key via behavior if configured,
  inserts"; the key and the value are set with the macros of dict.h. The result is
  \<open>DICT_ERR\<close> for KeyExists, else \<open>DICT_OK\<close>.\<close>

definition dictAdd :: "policy \<Rightarrow> 'w dict \<Rightarrow> ptr \<Rightarrow> ptr \<Rightarrow> int \<times> 'w dict" where
  "dictAdd pol d k val =
     (case dictFind pol d k of
        (Some e, d1) \<Rightarrow> (DICT_ERR, d1)
      | (None, d1) \<Rightarrow>
          (DICT_OK, dict_link pol d1 (dictSetVal d1 (dictSetKey d1 \<lparr>key = 0, v = 0\<rparr> k) val)))"

text \<open>Modelled from the spec: \<open>dictAddOrFind\<close>, "returns the existing entry if present,
  else behaves like add and returns the new entry". No value is given, so the value cell
  of a new entry holds what its memory held, \<open>v0\<close>.\<close>

definition dictAddOrFind :: "policy \<Rightarrow> 'w dict \<Rightarrow> ptr \<Rightarrow> 64 word \<Rightarrow> dictEntry \<times> 'w dict" where
  "dictAddOrFind pol d k v0 =
     (case dictFind pol d k of
        (Some e, d1) \<Rightarrow> (e, d1)
      | (None, d1) \<Rightarrow>
          (let e = dictSetKey d1 \<lparr>key = 0, v = v0\<rparr> k in (e, dict_link pol d1 e)))"










section \<open>Well-formed dictionaries\<close>

text \<open>Two key handles are the same key when the comparison macro says so.\<close>

definition keq :: "'w dict \<Rightarrow> ptr \<Rightarrow> ptr \<Rightarrow> bool" where
  "keq d a b = (dictCompareKeys d a b \<noteq> 0)"

text \<open>
  What the dictionary asks of the injected behaviours: comparison is an equivalence, equal
  keys hash alike, and the duplicate of a key is that key again.
\<close>

definition keys_ok :: "'w dict \<Rightarrow> bool" where
  "keys_ok d =
     ((\<forall>a. keq d a a) \<and> (\<forall>a b. keq d a b \<longrightarrow> keq d b a)
      \<and> (\<forall>a b c. keq d a b \<longrightarrow> keq d b c \<longrightarrow> keq d a c)
      \<and> (\<forall>a b. keq d a b \<longrightarrow> dictHashKey d a = dictHashKey d b)
      \<and> (\<forall>k e. keq d k (key (dictSetKey d e k))))"

text \<open>The entries a slot array holds, and those the dictionary holds.\<close>

definition ht_entries :: "dictht \<Rightarrow> dictEntry set" where
  "ht_entries h = set (concat (table h))"

definition dict_entries :: "'w dict \<Rightarrow> dictEntry set" where
  "dict_entries d = ht_entries (ht0 d) \<union> ht_entries (ht1 d)"

text \<open>
  A slot array is well formed: it has \<open>size\<close> slots, the mask keeps a bucket index below
  the size, every entry sits in the bucket of its key ("every entry's bucket index equals
  hash(key) & mask"), and no chain holds an entry twice.
\<close>

definition ht_ok :: "'w dict \<Rightarrow> dictht \<Rightarrow> bool" where
  "ht_ok d h =
     (length (table h) = size_ht h
      \<and> (0 < size_ht h \<longrightarrow> unat (sizemask h) < size_ht h)
      \<and> (\<forall>i < length (table h). \<forall>e \<in> set (table h ! i). bucket d h (key e) = i)
      \<and> (\<forall>i < length (table h). distinct (table h ! i)))"

text \<open>
  A dictionary is well formed: both slot arrays are; no two entries hold the same key and
  no entry is in both arrays; when no rehash is in progress table[1] is unallocated
  ("rehash_cursor is the sentinel if and only if table[1] is empty/unallocated"); during
  a rehash both arrays are allocated and the buckets of table[0] below the cursor have
  been emptied.
\<close>

definition dict_inv :: "'w dict \<Rightarrow> bool" where
  "dict_inv d =
     (ht_ok d (ht0 d) \<and> ht_ok d (ht1 d)
      \<and> (\<forall>e \<in> dict_entries d. \<forall>e' \<in> dict_entries d. keq d (key e) (key e') \<longrightarrow> e = e')
      \<and> ht_entries (ht0 d) \<inter> ht_entries (ht1 d) = {}
      \<and> (if dictIsRehashing d
          then 0 \<le> rehashidx d \<and> 0 < size_ht (ht0 d) \<and> 0 < size_ht (ht1 d)
               \<and> (\<forall>i < nat (rehashidx d). chain_at (ht0 d) i = [])
          else size_ht (ht1 d) = 0))"

text \<open>The injected behaviours of a dictionary; no operation changes them.\<close>

definition behaviours :: "'w dict \<Rightarrow> 'w dictType \<times> ptr" where
  "behaviours d = (type d, privdata d)"

text \<open>
  A step that only reorganises the slot arrays: it keeps the dictionary well formed and
  leaves its entries, its behaviours and its count of safe iterators as they were.
\<close>

definition reorganised :: "'w dict \<Rightarrow> 'w dict \<Rightarrow> bool" where
  "reorganised d d' =
     (dict_inv d' \<and> dict_entries d' = dict_entries d \<and> behaviours d' = behaviours d
      \<and> iterators d' = iterators d)"

text \<open>An insertion: the dictionary stays well formed and gains exactly the new entry.\<close>

definition inserted :: "'w dict \<Rightarrow> dictEntry \<Rightarrow> 'w dict \<Rightarrow> bool" where
  "inserted d e d' =
     (dict_inv d' \<and> dict_entries d' = insert e (dict_entries d) \<and> behaviours d' = behaviours d
      \<and> iterators d' = iterators d)"

section \<open>Sequences of additions and deletions\<close>




text \<open>The entry an addition of key \<open>k\<close> with value \<open>val\<close> creates: the macros of dict.h
  set its key and its value.\<close>

definition entry_of :: "'w dict \<Rightarrow> ptr \<Rightarrow> ptr \<Rightarrow> dictEntry" where
  "entry_of d k val = dictSetVal d (dictSetKey d \<lparr>key = 0, v = 0\<rparr> k) val"





text \<open>An example policy: grow when there are more entries than slots.\<close>

definition ex_policy :: policy where
  "ex_policy = \<lparr>grow_ratio = 1, force_ratio = 5, shrink_ratio = 10, can_resize = True,
                empty_visits = 10\<rparr>"


section \<open>Sequences of public operations\<close>

text \<open>
  The public operations of dict.h that change a dictionary, as calls. A state is the
  policy in force, the dictionary and the caller's state; \<open>dictEnableResize\<close> and
  \<open>dictDisableResize\<close> set the policy's switch ("model the administrative pause as a
  field on the controller (or an injected policy object)"). A safe iterator is released
  only while one is live.
\<close>

datatype dict_call =
    DictAdd ptr ptr
  | DictAddOrFind ptr "64 word"
  | DictReplace ptr ptr
  | DictDelete ptr
  | DictFind ptr
  | DictRehash nat
  | DictResize
  | DictGetSafeIterator
  | DictReleaseSafeIterator
  | DictEnableResize
  | DictDisableResize









text \<open>
  Where the entries are: \<open>located d t i k\<close> says that an entry with the key handle \<open>k\<close>
  sits in the chain of bucket \<open>i\<close> of table[0] (\<open>t = 0\<close>) or of table[1] (any other \<open>t\<close>).
\<close>

definition located :: "'w dict \<Rightarrow> nat \<Rightarrow> nat \<Rightarrow> ptr \<Rightarrow> bool" where
  "located d t i k = (k \<in> key ` set (chain_at (if t = 0 then ht0 d else ht1 d) i))"

text \<open>The calls that insert an entry or ask for a resize, and so may start a rehash.\<close>

fun may_start_rehash :: "dict_call \<Rightarrow> bool" where
  "may_start_rehash (DictAdd k val) = True"
| "may_start_rehash (DictAddOrFind k v0) = True"
| "may_start_rehash (DictReplace k val) = True"
| "may_start_rehash DictResize = True"
| "may_start_rehash c = False"

text \<open>An example: four additions to a new dictionary, then a safe iterator is created.\<close>

definition ex_paused_calls :: "dict_call list" where
  "ex_paused_calls = [DictAdd 1 11, DictAdd 2 22, DictAdd 3 33, DictAdd 4 44, DictGetSafeIterator]"

subsection \<open>Facts about linked segments\<close>

lemma dll_seg_frame:
  "(\<And>a. a \<in> set as \<Longrightarrow> h' a = h a) \<Longrightarrow> dll_seg h' p as q = dll_seg h p as q"
  by (induction as arbitrary: p) (auto split: option.splits)

lemma dll_seg_nonnull: "dll_seg h p as q \<Longrightarrow> 0 \<notin> set as"
  by (induction as arbitrary: p) (auto split: option.splits)

lemma dll_seg_alloc: "dll_seg h p as q \<Longrightarrow> set as \<subseteq> dom h"
  by (induction as arbitrary: p) (auto split: option.splits)

lemma dll_seg_append:
  "dll_seg h p (as @ bs) q =
     (dll_seg h p as (case bs of [] \<Rightarrow> q | b # _ \<Rightarrow> b)
      \<and> dll_seg h (if as = [] then p else last as) bs q)"
  by (induction as arbitrary: p) (auto split: option.splits list.splits)

lemma dll_seg_set_next:
  "dll_seg h p as q \<Longrightarrow> as \<noteq> [] \<Longrightarrow> distinct as \<Longrightarrow> h (last as) = Some n \<Longrightarrow>
   dll_seg (h(last as \<mapsto> n\<lparr>n_next := q'\<rparr>)) p as q'"
proof (induction as arbitrary: p)
  case Nil
  then show ?case by simp
next
  case (Cons a as)
  show ?case
  proof (cases "as = []")
    case True
    with Cons.prems show ?thesis by (simp split: option.splits)
  next
    case False
    then obtain b bs where as: "as = b # bs" by (cases as) auto
    from Cons.prems(1) as obtain m where m: "h a = Some m" "a \<noteq> 0" "n_prev m = p" "n_next m = b"
      and rest: "dll_seg h a as q"
      by (auto split: option.splits)
    have la: "last (a # as) = last as" using False by simp
    have ne: "a \<noteq> last as" using Cons.prems(3) False last_in_set[of as] by auto
    have nx: "(case as of [] \<Rightarrow> q' | c # _ \<Rightarrow> c) = b" using as by simp
    have d: "distinct as" using Cons.prems(3) by simp
    have hl: "h (last as) = Some n" using Cons.prems(4) la by simp
    have R: "dll_seg (h(last as \<mapsto> n\<lparr>n_next := q'\<rparr>)) a as q'"
      by (rule Cons.IH[OF rest False d hl])
    have H: "(h(last as \<mapsto> n\<lparr>n_next := q'\<rparr>)) a = Some m" using m ne by simp
    show ?thesis unfolding la dll_seg.simps H using m R nx by simp
  qed
qed

text \<open>Distinct non-null addresses are fewer than \<open>2^64\<close>: a length counter cannot wrap.\<close>

lemma card_ptr: "card (UNIV :: ptr set) = 2 ^ 64"
  using card_word[where 'a=64] by simp

lemma distinct_ptrs_bound:
  fixes ns :: "ptr list"
  assumes "distinct ns" "0 \<notin> set ns"
  shows "length ns < 2 ^ 64"
proof -
  have "set ns \<subset> (UNIV :: ptr set)" using assms(2) by blast
  then have "card (set ns) < card (UNIV :: ptr set)" by (rule psubset_card_mono[rotated]) simp
  then show ?thesis using assms(1) by (simp only: card_ptr distinct_card)
qed

lemma unat_len_add:
  fixes n m :: "64 word"
  assumes "unat n = k" "unat m = j" "k + j < 2 ^ 64"
  shows "unat (n + m) = k + j"
proof -
  have "unat n + unat m < 2 ^ LENGTH(64)" using assms by simp
  then have "unat (n + m) = unat n + unat m" by (simp only: unat_add_lem)
  then show ?thesis using assms by simp
qed

lemma dll_seg_set_prev:
  assumes "dll_seg h p (a # as) q" "a \<notin> set as" "h a = Some n"
  shows "dll_seg (h(a \<mapsto> n\<lparr>n_prev := p'\<rparr>)) p' (a # as) q"
proof -
  have "dll_seg (h(a \<mapsto> n\<lparr>n_prev := p'\<rparr>)) a as q = dll_seg h a as q"
    using assms(2) by (intro dll_seg_frame) auto
  then show ?thesis using assms(1,3) by simp
qed

lemma is_listD:
  assumes "is_list s l ns"
  obtains L where "list_mem s l = Some L"
    "head L = (case ns of [] \<Rightarrow> 0 | a # _ \<Rightarrow> a)"
    "tail L = (if ns = [] then 0 else last ns)"
    "unat (len L) = length ns" "distinct ns" "dll_seg (node_mem s) 0 ns 0"
  using assms by (auto simp: is_list_def split: option.splits)

lemma zmalloc_frame:
  assumes "zmalloc s = (p, s1)"
  shows "node_mem s1 = node_mem s" "list_mem s1 = list_mem s" "world s1 = world s"
  using assms by (auto simp: zmalloc_def split: list.splits)

lemma listAddNodeHead_ok:
  assumes L: "is_list s l ns" and Z: "zmalloc s = (p, s1)" and F: "p \<notin> dom (node_mem s)" and P: "p \<noteq> 0"
  shows "\<exists>s'. listAddNodeHead s l val = Some (l, s') \<and> is_list s' l (p # ns)
            \<and> node_values s' (p # ns) = val # node_values s ns
            \<and> listFirst s' l = Some p \<and> listNodeValue s' p = Some val
            \<and> map_option unat (listLength s' l) = Some (length ns + 1)"
proof -
  from L obtain L0 where L0: "list_mem s l = Some L0" 
    and hd: "head L0 = (case ns of [] \<Rightarrow> 0 | a # _ \<Rightarrow> a)"
    and tl: "tail L0 = (if ns = [] then 0 else last ns)"
    and ln: "unat (len L0) = length ns" and d: "distinct ns" and seg: "dll_seg (node_mem s) 0 ns 0"
    by (rule is_listD)
  note s1 = zmalloc_frame[OF Z]
  have pn: "p \<notin> set ns" using dll_seg_alloc[OF seg] F by auto
  have z: "0 \<notin> set ns" by (rule dll_seg_nonnull[OF seg])
  have b: "length ns + 1 < 2 ^ 64" using distinct_ptrs_bound[of "p # ns"] d pn z P by simp
  have ln1: "unat (len L0 + 1) = length ns + 1" by (rule unat_len_add[OF ln _ b]) simp
  show ?thesis
  proof (cases ns)
    case Nil
    then have "len L0 = 0" using ln by (simp add: unat_eq_0)
    then show ?thesis using Nil L0 s1 Z P ln1
      by (simp add: listAddNodeHead_def list_store_def node_init_def is_list_def node_values_def
                    listFirst_def listNodeValue_def listLength_def)
  next
    case (Cons a as)
    then have nz: "len L0 \<noteq> 0" using ln by auto
    from seg Cons obtain n where n: "node_mem s a = Some n" by (auto split: option.splits)
    have ap: "a \<noteq> p" using pn Cons by auto
    have seg': "dll_seg ((node_mem s)(a \<mapsto> n\<lparr>n_prev := p\<rparr>)) p (a # as) 0"
      using dll_seg_set_prev[of "node_mem s" 0 a as 0 n p] seg Cons d n by simp
    have seg'': "dll_seg ((node_mem s)(p \<mapsto> \<lparr>n_prev = 0, n_next = a, n_value = val\<rparr>, a \<mapsto> n\<lparr>n_prev := p\<rparr>)) p (a # as) 0"
      using seg' pn Cons by (subst dll_seg_frame[where h="(node_mem s)(a \<mapsto> n\<lparr>n_prev := p\<rparr>)"]) auto
    show ?thesis using Cons L0 s1 Z P ln1 nz hd n ap seg'' pn d tl
      by (simp add: listAddNodeHead_def list_store_def node_store_def node_init_def is_list_def node_values_def
                    listFirst_def listNodeValue_def listLength_def)
  qed
qed


lemma listAddNodeTail_ok:
  assumes L: "is_list s l ns" and Z: "zmalloc s = (p, s1)" and F: "p \<notin> dom (node_mem s)" and P: "p \<noteq> 0"
  shows "\<exists>s'. listAddNodeTail s l val = Some (l, s') \<and> is_list s' l (ns @ [p])
            \<and> node_values s' (ns @ [p]) = node_values s ns @ [val]
            \<and> listLast s' l = Some p \<and> listNodeValue s' p = Some val
            \<and> map_option unat (listLength s' l) = Some (length ns + 1)"
proof -
  from L obtain L0 where L0: "list_mem s l = Some L0" 
    and hd: "head L0 = (case ns of [] \<Rightarrow> 0 | a # _ \<Rightarrow> a)"
    and tl: "tail L0 = (if ns = [] then 0 else last ns)"
    and ln: "unat (len L0) = length ns" and d: "distinct ns" and seg: "dll_seg (node_mem s) 0 ns 0"
    by (rule is_listD)
  note s1 = zmalloc_frame[OF Z]
  have pn: "p \<notin> set ns" using dll_seg_alloc[OF seg] F by auto
  have z: "0 \<notin> set ns" by (rule dll_seg_nonnull[OF seg])
  have b: "length ns + 1 < 2 ^ 64" using distinct_ptrs_bound[of "p # ns"] d pn z P by simp
  have ln1: "unat (len L0 + 1) = length ns + 1" by (rule unat_len_add[OF ln _ b]) simp
  show ?thesis
  proof (cases "ns = []")
    case True
    then have "len L0 = 0" using ln by (simp add: unat_eq_0)
    then show ?thesis using True L0 s1 Z P ln1
      by (simp add: listAddNodeTail_def list_store_def node_init_def is_list_def node_values_def
                    listLast_def listNodeValue_def listLength_def)
  next
    case False
    then have nz: "len L0 \<noteq> 0" using ln by auto
    let ?a = "last ns"
    have ain: "?a \<in> set ns" using False by simp
    then obtain n where n: "node_mem s ?a = Some n" using dll_seg_alloc[OF seg] by auto
    have ap: "?a \<noteq> p" using pn ain by auto
    let ?h1 = "(node_mem s)(p \<mapsto> \<lparr>n_prev = ?a, n_next = 0, n_value = val\<rparr>)"
    have seg1: "dll_seg ?h1 0 ns 0"
      using seg pn by (subst dll_seg_frame[where h="node_mem s"]) auto
    have n1: "?h1 ?a = Some n" using n ap by simp
    have seg2: "dll_seg (?h1(?a \<mapsto> n\<lparr>n_next := p\<rparr>)) 0 ns p"
      by (rule dll_seg_set_next[OF seg1 False d n1])
    have seg3: "dll_seg (?h1(?a \<mapsto> n\<lparr>n_next := p\<rparr>)) 0 (ns @ [p]) 0"
      unfolding dll_seg_append using seg2 False ap P by simp
    have hd': "(case ns @ [p] of [] \<Rightarrow> 0 | a # _ \<Rightarrow> a) = head L0"
      using hd False by (cases ns) auto
    have vals: "map (\<lambda>a. case (?h1(?a \<mapsto> n\<lparr>n_next := p\<rparr>)) a of None \<Rightarrow> 0 | Some n \<Rightarrow> n_value n) ns
                = map (\<lambda>a. case node_mem s a of None \<Rightarrow> 0 | Some n \<Rightarrow> n_value n) ns"
      using pn n by (intro map_cong) auto
    show ?thesis using False L0 s1 Z P ln1 nz tl n ap seg3 pn d hd' vals
      by (simp add: listAddNodeTail_def list_store_def node_store_def node_init_def is_list_def node_values_def
                    listLast_def listNodeValue_def listLength_def)
  qed
qed

lemma listJoin_nodes:
  assumes A: "dll_seg h 0 ns 0" and B: "dll_seg h 0 ms 0"
    and d1: "distinct ns" and d2: "distinct ms" and disj: "set ns \<inter> set ms = {}"
  defines "lt \<equiv> (if ns = [] then 0 else last ns)"
  defines "ho \<equiv> (case ms of [] \<Rightarrow> 0 | b # _ \<Rightarrow> b)"
  defines "h1 \<equiv> (if ms = [] then h else h(ho \<mapsto> (the (h ho))\<lparr>n_prev := lt\<rparr>))"
  defines "h2 \<equiv> (if ns = [] then h1 else h1(lt \<mapsto> (the (h1 lt))\<lparr>n_next := ho\<rparr>))"
  shows "dll_seg h2 0 (ns @ ms) 0"
    and "map (\<lambda>a. case h2 a of None \<Rightarrow> 0 | Some n \<Rightarrow> n_value n) (ns @ ms)
         = map (\<lambda>a. case h a of None \<Rightarrow> 0 | Some n \<Rightarrow> n_value n) (ns @ ms)"
    and "ms \<noteq> [] \<Longrightarrow> h ho \<noteq> None" and "ns \<noteq> [] \<Longrightarrow> h1 lt \<noteq> None"
proof -
  have alloc: "set ns \<subseteq> dom h" "set ms \<subseteq> dom h"
    using dll_seg_alloc[OF A] dll_seg_alloc[OF B] by auto
  have ho_in: "ms \<noteq> [] \<Longrightarrow> ho \<in> set ms" unfolding ho_def by (cases ms) auto
  have lt_in: "ns \<noteq> [] \<Longrightarrow> lt \<in> set ns" unfolding lt_def by auto
  show g3: "ms \<noteq> [] \<Longrightarrow> h ho \<noteq> None" using ho_in alloc by auto
  have h1_ns: "\<And>a. a \<in> set ns \<Longrightarrow> h1 a = h a" using ho_in disj unfolding h1_def by auto
  show g4: "ns \<noteq> [] \<Longrightarrow> h1 lt \<noteq> None" using lt_in h1_ns alloc by auto
  have A1: "dll_seg h1 0 ns 0" using A h1_ns by (subst dll_seg_frame[where h=h]) auto
  have B1: "dll_seg h1 lt ms 0"
  proof (cases ms)
    case Nil then show ?thesis by simp
  next
    case (Cons b bs)
    then have "ho = b" by (simp add: ho_def)
    moreover obtain m where "h b = Some m" using alloc Cons by auto
    ultimately show ?thesis
      using dll_seg_set_prev[of h 0 b bs 0 m lt] B d2 Cons by (simp add: h1_def)
  qed
  have A2: "dll_seg h2 0 ns ho"
  proof (cases "ns = []")
    case True then show ?thesis by simp
  next
    case False
    then obtain n where n: "h1 (last ns) = Some n" using g4 by (auto simp: lt_def)
    show ?thesis using dll_seg_set_next[OF A1 False d1 n, of ho] False n by (simp add: h2_def lt_def)
  qed
  have h2_ms: "\<And>a. a \<in> set ms \<Longrightarrow> h2 a = h1 a" using lt_in disj unfolding h2_def by auto
  have B2: "dll_seg h2 lt ms 0" using B1 h2_ms by (subst dll_seg_frame[where h=h1]) auto
  show "dll_seg h2 0 (ns @ ms) 0"
    unfolding dll_seg_append using A2 B2 by (simp add: ho_def lt_def)
  have val: "\<And>a. (case h2 a of None \<Rightarrow> 0 | Some n \<Rightarrow> n_value n) = (case h a of None \<Rightarrow> 0 | Some n \<Rightarrow> n_value n)"
  proof -
    have "ns \<noteq> [] \<Longrightarrow> h lt \<noteq> None" using lt_in alloc by auto
    then show "\<And>a. (case h2 a of None \<Rightarrow> 0 | Some n \<Rightarrow> n_value n) = (case h a of None \<Rightarrow> 0 | Some n \<Rightarrow> n_value n)"
      using g3 g4 by (auto simp: h2_def h1_def split: option.splits)
  qed
  show "map (\<lambda>a. case h2 a of None \<Rightarrow> 0 | Some n \<Rightarrow> n_value n) (ns @ ms)
         = map (\<lambda>a. case h a of None \<Rightarrow> 0 | Some n \<Rightarrow> n_value n) (ns @ ms)"
    by (simp only: val)
qed

text \<open>
  C8. \<open>listAddNodeHead\<close> and \<open>listAddNodeTail\<close> on a well-formed list \<open>l\<close> with nodes
  \<open>ns\<close>, where \<open>zmalloc\<close> returns \<open>p\<close>. When the allocation fails (\<open>p = NULL\<close>) both
  return \<open>NULL\<close> and the node heap, the list headers and the caller's state are unchanged.
  When it succeeds with a fresh address, both return \<open>l\<close>; the list then consists of the
  new node followed by the old nodes in their old order (resp. the old nodes followed by the
  new node), the old nodes keep their values, the new node is the head (resp. the tail) and
  holds exactly \<open>v\<close>, and the length is the old one plus one, without wrap-around.
\<close>

theorem listAddNode_head_tail:
  assumes "is_list s l ns" and "zmalloc s = (p, s1)" and "p \<notin> dom (node_mem s)"
  shows "if p = 0
         then listAddNodeHead s l val = Some (0, s1) \<and> listAddNodeTail s l val = Some (0, s1)
              \<and> node_mem s1 = node_mem s \<and> list_mem s1 = list_mem s \<and> world s1 = world s
         else (\<exists>s'. listAddNodeHead s l val = Some (l, s')
                  \<and> is_list s' l (p # ns) \<and> node_values s' (p # ns) = val # node_values s ns
                  \<and> listFirst s' l = Some p \<and> listNodeValue s' p = Some val
                  \<and> map_option unat (listLength s' l) = Some (length ns + 1))
            \<and> (\<exists>s'. listAddNodeTail s l val = Some (l, s')
                  \<and> is_list s' l (ns @ [p]) \<and> node_values s' (ns @ [p]) = node_values s ns @ [val]
                  \<and> listLast s' l = Some p \<and> listNodeValue s' p = Some val
                  \<and> map_option unat (listLength s' l) = Some (length ns + 1))"
proof (cases "p = 0")
  case True
  then show ?thesis using assms(2) zmalloc_frame[OF assms(2)]
    by (simp add: listAddNodeHead_def listAddNodeTail_def)
next
  case False
  then show ?thesis
    using listAddNodeHead_ok[OF assms False, of val] listAddNodeTail_ok[OF assms False, of val]
    by simp
qed

theorem listAddNode_head_tail_witness:
  "is_list ex_mem 16 [32] \<and> zmalloc ex_mem = (48, ex_mem\<lparr>zm_results := []\<rparr>)
   \<and> 48 \<notin> dom (node_mem ex_mem)
   \<and> (\<exists>s'. listAddNodeHead ex_mem 16 9 = Some (16, s')
          \<and> is_list s' 16 [48, 32] \<and> node_values s' [48, 32] = [9, 5])
   \<and> (\<exists>s'. listAddNodeTail ex_mem 16 9 = Some (16, s')
          \<and> is_list s' 16 [32, 48] \<and> node_values s' [32, 48] = [5, 9])
   \<and> listAddNodeHead (ex_mem\<lparr>zm_results := []\<rparr>) 16 9 = Some (0, ex_mem\<lparr>zm_results := []\<rparr>)"
proof -
  have a: "is_list ex_mem 16 [32]" by (simp add: ex_mem_def is_list_def)
  have b: "zmalloc ex_mem = (48, ex_mem\<lparr>zm_results := []\<rparr>)" by (simp add: ex_mem_def zmalloc_def)
  have c: "48 \<notin> dom (node_mem ex_mem)" by (simp add: ex_mem_def)
  have a': "is_list (ex_mem\<lparr>zm_results := []\<rparr>) 16 [32]" by (simp add: ex_mem_def is_list_def)
  have b': "zmalloc (ex_mem\<lparr>zm_results := []\<rparr>) = (0, ex_mem\<lparr>zm_results := []\<rparr>)"
    by (simp add: ex_mem_def zmalloc_def)
  have c': "0 \<notin> dom (node_mem (ex_mem\<lparr>zm_results := []\<rparr>))" by (simp add: ex_mem_def)
  have d: "node_values ex_mem [32] = [5]" by (simp add: ex_mem_def node_values_def)
  show ?thesis
    using a b c d listAddNode_head_tail[OF a b c, of 9] listAddNode_head_tail[OF a' b' c', of 9]
    by auto
qed

text \<open>
  C10. \<open>listJoin(l, o)\<close> on two distinct well-formed lists (the source calls \<open>o\<close> "the
  list other") with disjoint nodes \<open>ns\<close> and \<open>ms\<close>: it returns; \<open>l\<close> then consists of
  \<open>ns\<close> followed by \<open>ms\<close>, so its values are \<open>l\<close>'s previous values followed by
  \<open>o\<close>'s previous values; its length is the sum of the two previous lengths, without
  wrap-around; \<open>o\<close> is a well-formed empty list (head and tail \<open>NULL\<close>, length 0) and
  its \<open>dup\<close>, \<open>free\<close> and \<open>match\<close> methods are unchanged.
\<close>

theorem listJoin_concat:
  assumes Ll: "is_list s l ns" and Lo: "is_list s o' ms" and ne: "l \<noteq> o'"
    and disj: "set ns \<inter> set ms = {}"
  shows "\<exists>s'. listJoin s l o' = Some s'
      \<and> is_list s' l (ns @ ms)
      \<and> node_values s' (ns @ ms) = node_values s ns @ node_values s ms
      \<and> map_option unat (listLength s' l) = Some (length ns + length ms)
      \<and> is_list s' o' []
      \<and> listFirst s' o' = Some 0 \<and> listLast s' o' = Some 0 \<and> listLength s' o' = Some 0
      \<and> map_option dup (list_mem s' o') = map_option dup (list_mem s o')
      \<and> map_option free (list_mem s' o') = map_option free (list_mem s o')
      \<and> map_option match (list_mem s' o') = map_option match (list_mem s o')"
proof -
  from Ll obtain L0 where L0: "list_mem s l = Some L0" 
    and hdl: "head L0 = (case ns of [] \<Rightarrow> 0 | a # _ \<Rightarrow> a)"
    and tll: "tail L0 = (if ns = [] then 0 else last ns)"
    and lnl: "unat (len L0) = length ns" and dl: "distinct ns" and segl: "dll_seg (node_mem s) 0 ns 0"
    by (rule is_listD)
  from Lo obtain O0 where O0: "list_mem s o' = Some O0" 
    and hdo: "head O0 = (case ms of [] \<Rightarrow> 0 | a # _ \<Rightarrow> a)"
    and tlo: "tail O0 = (if ms = [] then 0 else last ms)"
    and lno: "unat (len O0) = length ms" and do: "distinct ms" and sego: "dll_seg (node_mem s) 0 ms 0"
    by (rule is_listD)
  let ?h = "node_mem s"
  define h1 where "h1 = (if ms = [] then ?h else ?h(head O0 \<mapsto> (the (?h (head O0)))\<lparr>n_prev := tail L0\<rparr>))"
  define h2 where "h2 = (if ns = [] then h1 else h1(tail L0 \<mapsto> (the (h1 (tail L0)))\<lparr>n_next := head O0\<rparr>))"
  note N = listJoin_nodes[OF segl sego dl do disj, folded tll hdo, folded h1_def, folded h2_def]
  have z: "0 \<notin> set ns" "0 \<notin> set ms" using dll_seg_nonnull[OF segl] dll_seg_nonnull[OF sego] by auto
  have hz: "head O0 \<noteq> 0 \<longleftrightarrow> ms \<noteq> []" using hdo z by (cases ms) auto
  have tz: "tail O0 \<noteq> 0 \<longleftrightarrow> ms \<noteq> []"
  proof (cases "ms = []")
    case True then show ?thesis using tlo by simp
  next
    case False
    then have "last ms \<in> set ms" by simp
    then have "last ms \<noteq> 0" using z by metis
    then show ?thesis using tlo False by simp
  qed
  have tlz: "tail L0 \<noteq> 0 \<longleftrightarrow> ns \<noteq> []"
  proof (cases "ns = []")
    case True then show ?thesis using tll by simp
  next
    case False
    then have "last ns \<in> set ns" by simp
    then have "last ns \<noteq> 0" using z by metis
    then show ?thesis using tll False by simp
  qed
  have b: "length ns + length ms < 2 ^ 64"
    using distinct_ptrs_bound[of "ns @ ms"] dl do disj z by simp
  have ln: "unat (len L0 + len O0) = length ns + length ms" by (rule unat_len_add[OF lnl lno b])
  have run: "\<exists>s' L1. listJoin s l o' = Some s' \<and> node_mem s' = h2
        \<and> list_mem s' l = Some L1
        \<and> head L1 = (if ns = [] then head O0 else head L0)
        \<and> tail L1 = (if ms = [] then tail L0 else tail O0)
        \<and> len L1 = len L0 + len O0
        \<and> list_mem s' o' = Some (O0\<lparr>head := 0, tail := 0, len := 0\<rparr>)"
  proof -
    obtain x where x: "ms \<noteq> [] \<Longrightarrow> ?h (head O0) = Some x" using N(3) by (cases "ms = []") auto
    obtain y where y: "ns \<noteq> [] \<Longrightarrow> h1 (tail L0) = Some y" using N(4) by (cases "ns = []") auto
    show ?thesis
      using L0 O0 ne hz tz tlz x y
      by (cases "ms = []"; cases "ns = []")
         (simp_all add: listJoin_def node_store_def list_store_def h2_def h1_def)
  qed
  then obtain s' L1 where s': "listJoin s l o' = Some s'" "node_mem s' = h2"
        "list_mem s' l = Some L1"
        "head L1 = (if ns = [] then head O0 else head L0)"
        "tail L1 = (if ms = [] then tail L0 else tail O0)"
        "len L1 = len L0 + len O0"
        "list_mem s' o' = Some (O0\<lparr>head := 0, tail := 0, len := 0\<rparr>)"
    by blast
  have hd': "(case ns @ ms of [] \<Rightarrow> 0 | a # _ \<Rightarrow> a) = head L1"
    using hdl hdo s'(4) by (cases ns) auto
  have tl': "(if ns @ ms = [] then 0 else last (ns @ ms)) = tail L1"
    using tll tlo s'(5) by auto
  show ?thesis
    using s' N(1) N(2) ne ln hd' tl' dl do disj L0 O0
    by (simp add: is_list_def node_values_def listFirst_def listLast_def listLength_def)
qed


theorem listJoin_concat_witness:
  "is_list ex_join_mem 16 [32, 48] \<and> is_list ex_join_mem 24 [64] \<and> (16::ptr) \<noteq> 24
   \<and> set [32, 48] \<inter> set [64 :: ptr] = {}
   \<and> node_values ex_join_mem [32, 48] = [5, 6] \<and> node_values ex_join_mem [64] = [7]
   \<and> (\<exists>s'. listJoin ex_join_mem 16 24 = Some s'
          \<and> is_list s' 16 [32, 48, 64] \<and> node_values s' [32, 48, 64] = [5, 6, 7]
          \<and> map_option unat (listLength s' 16) = Some 3
          \<and> is_list s' 24 [] \<and> listLength s' 24 = Some 0)"
proof -
  have a: "is_list ex_join_mem 16 [32, 48]" by (simp add: ex_join_mem_def is_list_def)
  have b: "is_list ex_join_mem 24 [64]" by (simp add: ex_join_mem_def is_list_def)
  have c: "(16::ptr) \<noteq> 24" by simp
  have d: "set [32, 48] \<inter> set [64 :: ptr] = {}" by simp
  have val: "node_values ex_join_mem [32, 48] = [5, 6]" "node_values ex_join_mem [64] = [7]"
    by (simp_all add: ex_join_mem_def node_values_def)
  show ?thesis using a b val listJoin_concat[OF a b c d] by auto
qed

text \<open>
  Joining a list with itself. \<open>listJoin\<close> has no guard for \<open>l = o\<close>: on the list at 16,
  which holds the values 5 and 6, \<open>listJoin(l, l)\<close> returns and leaves the list empty
  (head and tail \<open>NULL\<close>, length 0) with its two nodes linked in a cycle, so its values
  are not 5, 6, 5, 6 and its length is not 4.
\<close>

theorem listJoin_self_counterexample:
  "is_list ex_join_mem 16 [32, 48] \<and> node_values ex_join_mem [32, 48] = [5, 6]
   \<and> listJoin ex_join_mem 16 16 \<noteq> None
   \<and> listFirst (the (listJoin ex_join_mem 16 16)) 16 = Some 0
   \<and> listLast (the (listJoin ex_join_mem 16 16)) 16 = Some 0
   \<and> listLength (the (listJoin ex_join_mem 16 16)) 16 = Some 0
   \<and> map_option n_next (node_mem (the (listJoin ex_join_mem 16 16)) 48) = Some 32
   \<and> map_option n_prev (node_mem (the (listJoin ex_join_mem 16 16)) 32) = Some 48
   \<and> \<not> is_list (the (listJoin ex_join_mem 16 16)) 16 ([32, 48] @ [32, 48])
   \<and> map_option unat (listLength (the (listJoin ex_join_mem 16 16)) 16) \<noteq> Some (2 + 2)"
proof -
  have a: "is_list ex_join_mem 16 [32, 48]" by (simp add: ex_join_mem_def is_list_def)
  have val: "node_values ex_join_mem [32, 48] = [5, 6]"
    by (simp add: ex_join_mem_def node_values_def)
  have r: "listJoin ex_join_mem 16 16 =
      Some (ex_join_mem\<lparr>node_mem := (node_mem ex_join_mem)
                (32 \<mapsto> \<lparr>n_prev = 48, n_next = 48, n_value = 5\<rparr>,
                 48 \<mapsto> \<lparr>n_prev = 32, n_next = 32, n_value = 6\<rparr>),
              list_mem := (list_mem ex_join_mem)
                (16 \<mapsto> \<lparr>head = 0, tail = 0, dup = None, free = None, match = None, len = 0\<rparr>)\<rparr>)"
    by (simp add: listJoin_def ex_join_mem_def node_store_def list_store_def)
  show ?thesis unfolding r using a val
    by (simp add: listFirst_def listLast_def listLength_def is_list_def)
qed

lemma listEmpty_loop_seg:
  "dll_seg (node_mem s) p ms 0 \<Longrightarrow> distinct ms \<Longrightarrow> list_mem s c = Some C \<Longrightarrow>
   \<exists>s'. listEmpty_loop (length ms) c (case ms of [] \<Rightarrow> 0 | a # _ \<Rightarrow> a) s = Some s'
      \<and> list_mem s' = list_mem s
      \<and> (\<forall>a. a \<notin> set ms \<longrightarrow> node_mem s' a = node_mem s a)"
proof (induction ms arbitrary: s p)
  case Nil
  then show ?case by simp
next
  case (Cons a as)
  from Cons.prems(1) obtain n where n: "node_mem s a = Some n"
    "n_next n = (case as of [] \<Rightarrow> 0 | b # _ \<Rightarrow> b)" and rest: "dll_seg (node_mem s) a as 0"
    by (auto split: option.splits)
  define s1 where "s1 = (case free C of None \<Rightarrow> s | Some f \<Rightarrow> s\<lparr>world := f (n_value n) (world s)\<rparr>)"
  define s2 where "s2 = zfree_node a s1"
  have m: "node_mem s2 = (node_mem s)(a := None)" "list_mem s2 = list_mem s"
    by (auto simp: s2_def s1_def zfree_node_def split: option.splits)
  have seg2: "dll_seg (node_mem s2) a as 0"
    using rest Cons.prems(2) unfolding m by (subst dll_seg_frame[where h="node_mem s"]) auto
  have d: "distinct as" using Cons.prems(2) by simp
  have c2: "list_mem s2 c = Some C" using Cons.prems(3) m by simp
  from Cons.IH[OF seg2 d c2] obtain s' where
    s': "listEmpty_loop (length as) c (case as of [] \<Rightarrow> 0 | a # _ \<Rightarrow> a) s2 = Some s'"
      "list_mem s' = list_mem s2" "\<forall>b. b \<notin> set as \<longrightarrow> node_mem s' b = node_mem s2 b"
    by blast
  have "listEmpty_loop (length (a # as)) c (case a # as of [] \<Rightarrow> 0 | a # _ \<Rightarrow> a) s = Some s'"
    using n Cons.prems(3) s'(1) by (simp add: s2_def s1_def)
  then show ?case using s'(2,3) m by auto
qed

lemma listRelease_ok:
  assumes "is_list s c ms"
  shows "\<exists>s'. listRelease s c = Some s'
      \<and> (\<forall>l. l \<noteq> c \<longrightarrow> list_mem s' l = list_mem s l)
      \<and> (\<forall>a. a \<notin> set ms \<longrightarrow> node_mem s' a = node_mem s a)"
proof -
  from assms obtain C where C: "list_mem s c = Some C" 
    and hd: "head C = (case ms of [] \<Rightarrow> 0 | a # _ \<Rightarrow> a)"
    and ln: "unat (len C) = length ms" and d: "distinct ms" and seg: "dll_seg (node_mem s) 0 ms 0"
    by (rule is_listD)
  from listEmpty_loop_seg[OF seg d C] obtain s1 where
    s1: "listEmpty_loop (length ms) c (case ms of [] \<Rightarrow> 0 | a # _ \<Rightarrow> a) s = Some s1"
      "list_mem s1 = list_mem s" "\<forall>a. a \<notin> set ms \<longrightarrow> node_mem s1 a = node_mem s a"
    by blast
  show ?thesis using C hd ln s1
    by (simp add: listRelease_def listEmpty_def list_store_def zfree_list_def)
qed

lemma listAddNodeTail_frame:
  assumes L: "is_list s l ns" and Z: "zmalloc s = (p, s1)" and F: "p \<notin> dom (node_mem s)" and P: "p \<noteq> 0"
  shows "\<exists>s'. listAddNodeTail s l val = Some (l, s') \<and> is_list s' l (ns @ [p])
            \<and> node_values s' (ns @ [p]) = node_values s ns @ [val]
            \<and> (\<forall>a. a \<noteq> p \<and> a \<notin> set ns \<longrightarrow> node_mem s' a = node_mem s a)
            \<and> (\<forall>l'. l' \<noteq> l \<longrightarrow> list_mem s' l' = list_mem s l')
            \<and> dom (node_mem s') = insert p (dom (node_mem s))
            \<and> world s' = world s \<and> zm_results s' = zm_results s1
            \<and> map_option dup (list_mem s' l) = map_option dup (list_mem s l)
            \<and> map_option free (list_mem s' l) = map_option free (list_mem s l)
            \<and> map_option match (list_mem s' l) = map_option match (list_mem s l)"
proof -
  from L obtain L0 where L0: "list_mem s l = Some L0" 
    and hd: "head L0 = (case ns of [] \<Rightarrow> 0 | a # _ \<Rightarrow> a)"
    and tl: "tail L0 = (if ns = [] then 0 else last ns)"
    and ln: "unat (len L0) = length ns" and d: "distinct ns" and seg: "dll_seg (node_mem s) 0 ns 0"
    by (rule is_listD)
  note s1 = zmalloc_frame[OF Z]
  have pn: "p \<notin> set ns" using dll_seg_alloc[OF seg] F by auto
  have z: "0 \<notin> set ns" by (rule dll_seg_nonnull[OF seg])
  have b: "length ns + 1 < 2 ^ 64" using distinct_ptrs_bound[of "p # ns"] d pn z P by simp
  have ln1: "unat (len L0 + 1) = length ns + 1" by (rule unat_len_add[OF ln _ b]) simp
  show ?thesis
  proof (cases "ns = []")
    case True
    then have "len L0 = 0" using ln by (simp add: unat_eq_0)
    then show ?thesis using True L0 s1 Z P ln1
      by (auto simp add: listAddNodeTail_def list_store_def node_init_def is_list_def node_values_def)
  next
    case False
    then have nz: "len L0 \<noteq> 0" using ln by auto
    let ?a = "last ns"
    have ain: "?a \<in> set ns" using False by simp
    then obtain n where n: "node_mem s ?a = Some n" using dll_seg_alloc[OF seg] by auto
    have ap: "?a \<noteq> p" using pn ain by auto
    let ?h1 = "(node_mem s)(p \<mapsto> \<lparr>n_prev = ?a, n_next = 0, n_value = val\<rparr>)"
    have seg1: "dll_seg ?h1 0 ns 0"
      using seg pn by (subst dll_seg_frame[where h="node_mem s"]) auto
    have n1: "?h1 ?a = Some n" using n ap by simp
    have seg2: "dll_seg (?h1(?a \<mapsto> n\<lparr>n_next := p\<rparr>)) 0 ns p"
      by (rule dll_seg_set_next[OF seg1 False d n1])
    have seg3: "dll_seg (?h1(?a \<mapsto> n\<lparr>n_next := p\<rparr>)) 0 (ns @ [p]) 0"
      unfolding dll_seg_append using seg2 False ap P by simp
    have hd': "(case ns @ [p] of [] \<Rightarrow> 0 | a # _ \<Rightarrow> a) = head L0"
      using hd False by (cases ns) auto
    have vals: "map (\<lambda>a. case (?h1(?a \<mapsto> n\<lparr>n_next := p\<rparr>)) a of None \<Rightarrow> 0 | Some n \<Rightarrow> n_value n) ns
                = map (\<lambda>a. case node_mem s a of None \<Rightarrow> 0 | Some n \<Rightarrow> n_value n) ns"
      using pn n by (intro map_cong) auto
    have dm: "insert (last ns) (insert p (dom (node_mem s))) = insert p (dom (node_mem s))"
      using n by auto
    show ?thesis using False L0 s1 Z P ln1 nz tl n ap seg3 pn d hd' vals ain dm
      by (auto simp add: listAddNodeTail_def list_store_def node_store_def node_init_def is_list_def node_values_def)
  qed
qed

lemma fresh_allocs_step:
  assumes "fresh_allocs s" "zm_results s = p # zm_results s'"
    and "dom (node_mem s') \<subseteq> insert p (dom (node_mem s))"
    and "dom (list_mem s') \<subseteq> insert p (dom (list_mem s))"
  shows "fresh_allocs s'"
proof -
  let ?ps = "filter (\<lambda>p. p \<noteq> 0) (zm_results s)"
  let ?ps' = "filter (\<lambda>p. p \<noteq> 0) (zm_results s')"
  from assms(1) have d: "distinct ?ps" and n: "set ?ps \<inter> dom (node_mem s) = {}"
    and l: "set ?ps \<inter> dom (list_mem s) = {}"
    by (simp_all add: fresh_allocs_def Let_def)
  have sub: "set ?ps' \<subseteq> set ?ps" using assms(2) by auto
  have d': "distinct ?ps'" using d assms(2) by (cases "p = 0") auto
  have pn: "p \<notin> set ?ps'" using d assms(2) by (cases "p = 0") auto
  have "set ?ps' \<inter> dom (node_mem s') = {}" using sub n pn assms(3) by blast
  moreover have "set ?ps' \<inter> dom (list_mem s') = {}" using sub l pn assms(4) by blast
  ultimately show ?thesis using d' by (simp add: fresh_allocs_def Let_def)
qed

lemma fresh_allocs_hd:
  assumes "fresh_allocs s" "zm_results s = p # ps" "p \<noteq> 0"
  shows "p \<notin> dom (node_mem s)" "p \<notin> dom (list_mem s)"
  using assms unfolding fresh_allocs_def Let_def by auto

lemma is_list_frame:
  assumes "is_list s l ns" "list_mem s' l = list_mem s l" "\<And>a. a \<in> set ns \<Longrightarrow> node_mem s' a = node_mem s a"
  shows "is_list s' l ns"
proof -
  have "dll_seg (node_mem s') 0 ns 0 = dll_seg (node_mem s) 0 ns 0"
    using assms(3) by (rule dll_seg_frame)
  then show ?thesis using assms(1,2) by (simp add: is_list_def split: option.splits)
qed

lemma node_values_frame:
  assumes "\<And>a. a \<in> set ns \<Longrightarrow> node_mem s' a = node_mem s a"
  shows "node_values s' ns = node_values s ns"
  using assms by (simp add: node_values_def)

lemma node_values_append: "node_values s (xs @ ys) = node_values s xs @ node_values s ys"
  by (simp add: node_values_def)

lemma node_values_Cons:
  "node_values s (x # xs) = (case node_mem s x of None \<Rightarrow> 0 | Some n \<Rightarrow> n_value n) # node_values s xs"
  by (simp add: node_values_def)

lemma length_node_values: "length (node_values s xs) = length xs"
  by (simp add: node_values_def)

lemma listDup_loop_ok:
  assumes "dll_seg (node_mem s) q rest 0"
      and "is_list s c ms" and "set ms \<inter> set rest = {}"
      and "fresh_allocs s"
      and "list_mem s c = Some C" and "c \<noteq> 0"
  shows "\<exists>r s'. listDup_loop s c \<lparr>it_next = (case rest of [] \<Rightarrow> 0 | a # _ \<Rightarrow> a), direction = AL_START_HEAD\<rparr> = Some (r, s')
      \<and> (\<forall>l. l \<noteq> c \<longrightarrow> list_mem s' l = list_mem s l)
      \<and> (\<forall>a. a \<in> dom (node_mem s) \<and> a \<notin> set ms \<longrightarrow> node_mem s' a = node_mem s a)
      \<and> (r \<noteq> 0 \<longrightarrow> r = c \<and> (\<exists>ms'. is_list s' c (ms @ ms') \<and> length ms' = length rest
            \<and> set ms' \<inter> dom (node_mem s) = {}
            \<and> map_option dup (list_mem s' c) = Some (dup C)
            \<and> map_option free (list_mem s' c) = Some (free C)
            \<and> map_option match (list_mem s' c) = Some (match C)
            \<and> node_values s' ms = node_values s ms
            \<and> (case dup C of None \<Rightarrow> node_values s' ms' = node_values s rest \<and> world s' = world s
               | Some f \<Rightarrow> (node_values s' ms', world s') = dup_values f (node_values s rest) (world s))))"
  using assms
proof (induction rest arbitrary: s ms q C)
  case Nil
  have "listDup_loop s c \<lparr>it_next = 0, direction = AL_START_HEAD\<rparr> = Some (c, s)"
    by (subst listDup_loop.simps) (simp add: listNext_def)
  then show ?case using Nil.prems(2,5)
    by (auto simp: node_values_def split: option.splits intro!: exI[of _ "[]"])
next
  case (Cons a as)
  let ?it = "\<lparr>it_next = a, direction = AL_START_HEAD\<rparr>"
  from Cons.prems(1) obtain n where n: "node_mem s a = Some n" "a \<noteq> 0"
      "n_next n = (case as of [] \<Rightarrow> 0 | b # _ \<Rightarrow> b)" and seg': "dll_seg (node_mem s) a as 0"
    by (auto split: option.splits)
  note C = Cons.prems(5)
  note cz = Cons.prems(6)
  define vs1 where "vs1 = (case dup C of None \<Rightarrow> (n_value n, s)
                       | Some f \<Rightarrow> (case f (n_value n) (world s) of (val, w) \<Rightarrow> (val, s\<lparr>world := w\<rparr>)))"
  obtain val s1 where vs1': "vs1 = (val, s1)" by (cases vs1)
  have s1: "node_mem s1 = node_mem s" "list_mem s1 = list_mem s" "zm_results s1 = zm_results s"
    using vs1' by (auto simp: vs1_def split: option.splits prod.splits)
  have E: "listDup_loop s c ?it =
      (if dup C \<noteq> None \<and> val = 0 then do { s2 \<leftarrow> listRelease s1 c; Some (0, s2) }
       else do { (r, s2) \<leftarrow> listAddNodeTail s1 c val;
                 if r = 0 then do { s3 \<leftarrow> listRelease s2 c; Some (0, s3) }
                 else listDup_loop s2 c \<lparr>it_next = (case as of [] \<Rightarrow> 0 | b # _ \<Rightarrow> b), direction = AL_START_HEAD\<rparr> })"
    apply (subst listDup_loop.simps)
    using n C vs1' unfolding vs1_def
    by (simp add: listNext_def)
  have L1: "is_list s1 c ms" using Cons.prems(2) s1 by (intro is_list_frame[of s c ms s1]) auto
  have F1: "fresh_allocs s1" using Cons.prems(4) s1 by (simp add: fresh_allocs_def)
  have msdom: "set ms \<subseteq> dom (node_mem s)"
  proof -
    from Cons.prems(2) have "dll_seg (node_mem s) 0 ms 0" by (rule is_listD)
    then show ?thesis by (rule dll_seg_alloc)
  qed
  have asdom: "set as \<subseteq> dom (node_mem s)" using dll_seg_alloc[OF seg'] .
  show ?case
  proof (cases "dup C \<noteq> None \<and> val = 0")
    case True
    from listRelease_ok[OF L1] obtain s2 where s2: "listRelease s1 c = Some s2"
       "\<forall>l. l \<noteq> c \<longrightarrow> list_mem s2 l = list_mem s1 l"
       "\<forall>a. a \<notin> set ms \<longrightarrow> node_mem s2 a = node_mem s1 a" by blast
    have "listDup_loop s c ?it = Some (0, s2)" using E True s2(1) by simp
    then show ?thesis using s2(2,3) s1 by auto
  next
    case False
    have E2: "listDup_loop s c ?it = do { (r, s2) \<leftarrow> listAddNodeTail s1 c val;
                 if r = 0 then do { s3 \<leftarrow> listRelease s2 c; Some (0, s3) }
                 else listDup_loop s2 c \<lparr>it_next = (case as of [] \<Rightarrow> 0 | b # _ \<Rightarrow> b), direction = AL_START_HEAD\<rparr> }"
      unfolding E using False by (simp only: if_False)
    obtain p s1' where Z: "zmalloc s1 = (p, s1')" by (cases "zmalloc s1")
    note zf = zmalloc_frame[OF Z]
    show ?thesis
    proof (cases "p = 0")
      case True
      have A: "listAddNodeTail s1 c val = Some (0, s1')" using Z True by (simp add: listAddNodeTail_def)
      have L1': "is_list s1' c ms" using L1 zf by (intro is_list_frame[of s1 c ms s1']) auto
      from listRelease_ok[OF L1'] obtain s3 where s3: "listRelease s1' c = Some s3"
         "\<forall>l. l \<noteq> c \<longrightarrow> list_mem s3 l = list_mem s1' l"
         "\<forall>a. a \<notin> set ms \<longrightarrow> node_mem s3 a = node_mem s1' a" by blast
      have "listDup_loop s c ?it = Some (0, s3)" unfolding E2 using A s3(1) by simp
      then show ?thesis using s3(2,3) s1 zf by auto
    next
      case pz: False
      have zr: "zm_results s1 = p # zm_results s1'"
        using Z pz by (auto simp: zmalloc_def split: list.splits)
      have pf: "p \<notin> dom (node_mem s1)" using fresh_allocs_hd(1)[OF F1 zr pz] .
      from listAddNodeTail_frame[OF L1 Z pf pz, of val] obtain s2 where
        A: "listAddNodeTail s1 c val = Some (c, s2)" and L2: "is_list s2 c (ms @ [p])"
        and V2: "node_values s2 (ms @ [p]) = node_values s1 ms @ [val]"
        and N2: "\<forall>a. a \<noteq> p \<and> a \<notin> set ms \<longrightarrow> node_mem s2 a = node_mem s1 a"
        and M2: "\<forall>l'. l' \<noteq> c \<longrightarrow> list_mem s2 l' = list_mem s1 l'"
        and D2: "dom (node_mem s2) = insert p (dom (node_mem s1))"
        and W2: "world s2 = world s1" and R2: "zm_results s2 = zm_results s1'"
        and md: "map_option dup (list_mem s2 c) = map_option dup (list_mem s1 c)"
        and mf: "map_option free (list_mem s2 c) = map_option free (list_mem s1 c)"
        and mm: "map_option match (list_mem s2 c) = map_option match (list_mem s1 c)"
        by blast
      from md mf mm C s1 obtain C2 where C2: "list_mem s2 c = Some C2" "dup C2 = dup C"
          "free C2 = free C" "match C2 = match C" by auto
      have pas: "p \<notin> set as" using pf asdom s1 by auto
      have asms: "set ms \<inter> set as = {}" using Cons.prems(3) by auto
      have fr_as: "\<And>b. b \<in> set as \<Longrightarrow> node_mem s2 b = node_mem s b"
        using N2 pas asms s1 by auto
      have seg2: "dll_seg (node_mem s2) a as 0"
        using seg' fr_as by (subst dll_seg_frame[where h="node_mem s"]) auto
      have dj2: "set (ms @ [p]) \<inter> set as = {}" using asms pas by auto
      have F2: "fresh_allocs s2"
      proof (rule fresh_allocs_step[of s1 p s2])
        show "fresh_allocs s1" by (rule F1)
        show "zm_results s1 = p # zm_results s2" using zr R2 by simp
        show "dom (node_mem s2) \<subseteq> insert p (dom (node_mem s1))" using D2 by simp
        show "dom (list_mem s2) \<subseteq> insert p (dom (list_mem s1))"
        proof
          fix x assume "x \<in> dom (list_mem s2)"
          then show "x \<in> insert p (dom (list_mem s1))"
            using M2 C s1 by (cases "x = c") auto
        qed
      qed
      from Cons.IH[OF seg2 L2 dj2 F2 C2(1) cz] obtain r s' where
        run: "listDup_loop s2 c \<lparr>it_next = (case as of [] \<Rightarrow> 0 | a # _ \<Rightarrow> a), direction = AL_START_HEAD\<rparr> = Some (r, s')"
        and fl: "\<forall>l. l \<noteq> c \<longrightarrow> list_mem s' l = list_mem s2 l"
        and fn: "\<forall>a. a \<in> dom (node_mem s2) \<and> a \<notin> set (ms @ [p]) \<longrightarrow> node_mem s' a = node_mem s2 a"
        and res: "r \<noteq> 0 \<longrightarrow> r = c \<and> (\<exists>ms'. is_list s' c ((ms @ [p]) @ ms') \<and> length ms' = length as
            \<and> set ms' \<inter> dom (node_mem s2) = {}
            \<and> map_option dup (list_mem s' c) = Some (dup C2)
            \<and> map_option free (list_mem s' c) = Some (free C2)
            \<and> map_option match (list_mem s' c) = Some (match C2)
            \<and> node_values s' (ms @ [p]) = node_values s2 (ms @ [p])
            \<and> (case dup C2 of None \<Rightarrow> node_values s' ms' = node_values s2 as \<and> world s' = world s2
               | Some f \<Rightarrow> (node_values s' ms', world s') = dup_values f (node_values s2 as) (world s2)))"
        by blast
      have run': "listDup_loop s c ?it = Some (r, s')" unfolding E2 using A cz run by simp
      have g1: "\<forall>l. l \<noteq> c \<longrightarrow> list_mem s' l = list_mem s l" using fl M2 s1 by simp
      have g2: "\<forall>b. b \<in> dom (node_mem s) \<and> b \<notin> set ms \<longrightarrow> node_mem s' b = node_mem s b"
      proof (intro allI impI)
        fix b assume b: "b \<in> dom (node_mem s) \<and> b \<notin> set ms"
        then have bp: "b \<noteq> p" using pf s1 by auto
        then have "node_mem s' b = node_mem s2 b" using fn b D2 s1 by auto
        then show "node_mem s' b = node_mem s b" using N2 bp b s1 by simp
      qed
      have g3: "r \<noteq> 0 \<longrightarrow> r = c \<and> (\<exists>ms'. is_list s' c (ms @ ms') \<and> length ms' = length (a # as)
            \<and> set ms' \<inter> dom (node_mem s) = {}
            \<and> map_option dup (list_mem s' c) = Some (dup C)
            \<and> map_option free (list_mem s' c) = Some (free C)
            \<and> map_option match (list_mem s' c) = Some (match C)
            \<and> node_values s' ms = node_values s ms
            \<and> (case dup C of None \<Rightarrow> node_values s' ms' = node_values s (a # as) \<and> world s' = world s
               | Some f \<Rightarrow> (node_values s' ms', world s') = dup_values f (node_values s (a # as)) (world s)))"
      proof
        assume "r \<noteq> 0"
        with res obtain ms'' where rc: "r = c" and r1: "is_list s' c ((ms @ [p]) @ ms'')"
          and r2: "length ms'' = length as" and r3: "set ms'' \<inter> dom (node_mem s2) = {}"
          and r4: "map_option dup (list_mem s' c) = Some (dup C2)"
             "map_option free (list_mem s' c) = Some (free C2)"
             "map_option match (list_mem s' c) = Some (match C2)"
          and r5: "node_values s' (ms @ [p]) = node_values s2 (ms @ [p])"
          and r6: "(case dup C2 of None \<Rightarrow> node_values s' ms'' = node_values s2 as \<and> world s' = world s2
               | Some f \<Rightarrow> (node_values s' ms'', world s') = dup_values f (node_values s2 as) (world s2))"
          by blast
        have v1: "node_values s1 ms = node_values s ms" using s1 by (simp add: node_values_def)
        have "node_values s' ms @ node_values s' [p] = node_values s ms @ [val]"
          using r5 V2 v1 by (simp add: node_values_append)
        then have v2: "node_values s' ms = node_values s ms" "node_values s' [p] = [val]"
          by (simp_all add: length_node_values)
        have v3: "node_values s2 as = node_values s as" using fr_as by (rule node_values_frame)
        have v4: "node_values s' (p # ms'') = val # node_values s' ms''"
          using v2(2) by (simp add: node_values_def)
        have v5: "node_values s (a # as) = n_value n # node_values s as"
          using n by (simp add: node_values_def)
        have vals: "(case dup C of None \<Rightarrow> node_values s' (p # ms'') = node_values s (a # as) \<and> world s' = world s
               | Some f \<Rightarrow> (node_values s' (p # ms''), world s') = dup_values f (node_values s (a # as)) (world s))"
        proof (cases "dup C")
          case None
          then have "val = n_value n" "s1 = s" using vs1' by (simp_all add: vs1_def)
          then show ?thesis using None r6 C2(2) v3 v4 v5 W2 by simp
        next
          case (Some f)
          obtain w where fw: "f (n_value n) (world s) = (val, w)" "world s1 = w"
            using vs1' Some by (auto simp: vs1_def split: prod.splits)
          then show ?thesis using Some r6 C2(2) v3 v4 v5 W2
            by (auto split: prod.splits)
        qed
        have "set (p # ms'') \<inter> dom (node_mem s) = {}" using r3 D2 pf s1 by auto
        then show "r = c \<and> (\<exists>ms'. is_list s' c (ms @ ms') \<and> length ms' = length (a # as)
            \<and> set ms' \<inter> dom (node_mem s) = {}
            \<and> map_option dup (list_mem s' c) = Some (dup C)
            \<and> map_option free (list_mem s' c) = Some (free C)
            \<and> map_option match (list_mem s' c) = Some (match C)
            \<and> node_values s' ms = node_values s ms
            \<and> (case dup C of None \<Rightarrow> node_values s' ms' = node_values s (a # as) \<and> world s' = world s
               | Some f \<Rightarrow> (node_values s' ms', world s') = dup_values f (node_values s (a # as)) (world s)))"
          using rc r1 r2 r4 C2 v2(1) vals
          by (intro conjI exI[of _ "p # ms''"]) simp_all
      qed
      have run'': "listDup_loop s c \<lparr>it_next = (case a # as of [] \<Rightarrow> 0 | a # _ \<Rightarrow> a), direction = AL_START_HEAD\<rparr> = Some (r, s')"
        using run' by simp
      show ?thesis by (intro exI[of _ r] exI[of _ s'] conjI run'' g1 g2 g3)
    qed
  qed
qed

text \<open>
  C9. \<open>listDup\<close> on a well-formed list \<open>orig\<close> with nodes \<open>ns\<close>, the allocator handing out
  fresh memory: it returns, with \<open>NULL\<close> or with a pointer \<open>r\<close>. Either way the header of
  \<open>orig\<close> and each of its nodes are what they were, so \<open>orig\<close> is the same well-formed list
  with the same values. When \<open>r\<close> is not \<open>NULL\<close> it is a list header that was not allocated
  before, its nodes \<open>ms\<close> were not allocated before, it has the length and the \<open>dup\<close>,
  \<open>free\<close> and \<open>match\<close> methods of \<open>orig\<close>, and its values are, in head-to-tail order, the
  very value pointers of \<open>orig\<close> when \<open>orig\<close> has no \<open>dup\<close> method, and otherwise what the
  \<open>dup\<close> method returned for them, called in that order.
\<close>

theorem listDup_copy:
  assumes "is_list s orig ns" and "fresh_allocs s"
  shows "\<exists>r s'. listDup s orig = Some (r, s')
     \<and> is_list s' orig ns \<and> list_mem s' orig = list_mem s orig
     \<and> map (node_mem s') ns = map (node_mem s) ns
     \<and> node_values s' ns = node_values s ns
     \<and> (r \<noteq> 0 \<longrightarrow> r \<notin> dom (list_mem s)
           \<and> (\<exists>ms. is_list s' r ms \<and> length ms = length ns \<and> set ms \<inter> dom (node_mem s) = {}
                 \<and> listLength s' r = listLength s orig
                 \<and> map_option dup (list_mem s' r) = map_option dup (list_mem s orig)
                 \<and> map_option free (list_mem s' r) = map_option free (list_mem s orig)
                 \<and> map_option match (list_mem s' r) = map_option match (list_mem s orig)
                 \<and> (case Option.bind (list_mem s orig) dup of
                       None \<Rightarrow> node_values s' ms = node_values s ns
                     | Some f \<Rightarrow> (node_values s' ms, world s') = dup_values f (node_values s ns) (world s))))"
proof -
  from assms(1) obtain O0 where O0: "list_mem s orig = Some O0" 
    and hdo: "head O0 = (case ns of [] \<Rightarrow> 0 | a # _ \<Rightarrow> a)"
    and lno: "unat (len O0) = length ns" and seg: "dll_seg (node_mem s) 0 ns 0"
    by (rule is_listD)
  have nsdom: "set ns \<subseteq> dom (node_mem s)" using seg by (rule dll_seg_alloc)
  obtain p s0 where Z: "zmalloc s = (p, s0)" by (cases "zmalloc s")
  note zf = zmalloc_frame[OF Z]
  show ?thesis
  proof (cases "p = 0")
    case True
    have "listDup s orig = Some (0, s0)" using Z True by (simp add: listDup_def listCreate_def)
    moreover have "is_list s0 orig ns" using assms(1) zf by (intro is_list_frame[of s orig ns s0]) auto
    ultimately show ?thesis using zf by (auto simp: node_values_def)
  next
    case False
    have zr: "zm_results s = p # zm_results s0"
      using Z False by (auto simp: zmalloc_def split: list.splits)
    have pl: "p \<notin> dom (list_mem s)" using fresh_allocs_hd(2)[OF assms(2) zr False] .
    then have po: "p \<noteq> orig" using O0 by auto
    define C where "C = \<lparr>head = 0, tail = 0, dup = dup O0, free = free O0, match = match O0, len = 0\<rparr>"
    define s4 where "s4 = s0\<lparr>list_mem := (list_mem s)(p \<mapsto> C)\<rparr>"
    have s4: "node_mem s4 = node_mem s" "list_mem s4 = (list_mem s)(p \<mapsto> C)"
       "zm_results s4 = zm_results s0" "world s4 = world s"
      using zf by (simp_all add: s4_def)
    have E: "listDup s orig = listDup_loop s4 p \<lparr>it_next = (case ns of [] \<Rightarrow> 0 | a # _ \<Rightarrow> a), direction = AL_START_HEAD\<rparr>"
      using Z False zf O0 po hdo
      by (simp add: listDup_def listCreate_def list_init_def list_store_def listRewind_def s4_def C_def)
    have seg4: "dll_seg (node_mem s4) 0 ns 0" using seg s4 by simp
    have L4: "is_list s4 p []" using s4 by (simp add: is_list_def C_def)
    have F4: "fresh_allocs s4"
      by (rule fresh_allocs_step[OF assms(2), of p]) (use zr s4 in auto)
    have C4: "list_mem s4 p = Some C" using s4 by simp
    from listDup_loop_ok[OF seg4 L4 _ F4 C4 False] obtain r s' where
      run: "listDup_loop s4 p \<lparr>it_next = (case ns of [] \<Rightarrow> 0 | a # _ \<Rightarrow> a), direction = AL_START_HEAD\<rparr> = Some (r, s')"
      and fl: "\<forall>l. l \<noteq> p \<longrightarrow> list_mem s' l = list_mem s4 l"
      and fn: "\<forall>a. a \<in> dom (node_mem s4) \<and> a \<notin> set [] \<longrightarrow> node_mem s' a = node_mem s4 a"
      and res: "r \<noteq> 0 \<longrightarrow> r = p \<and> (\<exists>ms'. is_list s' p ([] @ ms') \<and> length ms' = length ns
            \<and> set ms' \<inter> dom (node_mem s4) = {}
            \<and> map_option dup (list_mem s' p) = Some (dup C)
            \<and> map_option free (list_mem s' p) = Some (free C)
            \<and> map_option match (list_mem s' p) = Some (match C)
            \<and> node_values s' [] = node_values s4 []
            \<and> (case dup C of None \<Rightarrow> node_values s' ms' = node_values s4 ns \<and> world s' = world s4
               | Some f \<Rightarrow> (node_values s' ms', world s') = dup_values f (node_values s4 ns) (world s4)))"
      by auto
    have g0: "listDup s orig = Some (r, s')" using E run by simp
    have lo: "list_mem s' orig = list_mem s orig" using fl po s4 by simp
    have nn: "\<And>a. a \<in> set ns \<Longrightarrow> node_mem s' a = node_mem s a"
    proof -
      fix a assume "a \<in> set ns"
      then have "a \<in> dom (node_mem s4)" using nsdom s4(1) by auto
      then have "node_mem s' a = node_mem s4 a" using fn by simp
      then show "node_mem s' a = node_mem s a" using s4(1) by simp
    qed
    have g1: "is_list s' orig ns" using assms(1) lo nn by (rule is_list_frame)
    have g2: "map (node_mem s') ns = map (node_mem s) ns" using nn by simp
    have g3: "node_values s' ns = node_values s ns" using nn by (rule node_values_frame)
    have v4: "node_values s4 ns = node_values s ns" using s4 by (simp add: node_values_def)
    have g4: "r \<noteq> 0 \<longrightarrow> r \<notin> dom (list_mem s)
           \<and> (\<exists>ms. is_list s' r ms \<and> length ms = length ns \<and> set ms \<inter> dom (node_mem s) = {}
                 \<and> listLength s' r = listLength s orig
                 \<and> map_option dup (list_mem s' r) = map_option dup (list_mem s orig)
                 \<and> map_option free (list_mem s' r) = map_option free (list_mem s orig)
                 \<and> map_option match (list_mem s' r) = map_option match (list_mem s orig)
                 \<and> (case Option.bind (list_mem s orig) dup of
                       None \<Rightarrow> node_values s' ms = node_values s ns
                     | Some f \<Rightarrow> (node_values s' ms, world s') = dup_values f (node_values s ns) (world s)))"
    proof
      assume "r \<noteq> 0"
      with res obtain ms where rp: "r = p" and r1: "is_list s' p ms" and r2: "length ms = length ns"
        and r3: "set ms \<inter> dom (node_mem s4) = {}"
        and r4: "map_option dup (list_mem s' p) = Some (dup C)"
            "map_option free (list_mem s' p) = Some (free C)"
            "map_option match (list_mem s' p) = Some (match C)"
        and r6: "(case dup C of None \<Rightarrow> node_values s' ms = node_values s4 ns \<and> world s' = world s4
               | Some f \<Rightarrow> (node_values s' ms, world s') = dup_values f (node_values s4 ns) (world s4))"
        by auto
      from r1 obtain C' where C': "list_mem s' p = Some C'" "unat (len C') = length ms"
        by (rule is_listD)
      have "unat (len C') = unat (len O0)" using C'(2) r2 lno by simp
      then have "len C' = len O0" by (simp add: word_unat_eq_iff)
      then have ll: "listLength s' p = listLength s orig" using C'(1) O0 by (simp add: listLength_def)
      have vals: "(case Option.bind (list_mem s orig) dup of
                       None \<Rightarrow> node_values s' ms = node_values s ns
                     | Some f \<Rightarrow> (node_values s' ms, world s') = dup_values f (node_values s ns) (world s))"
        using r6 O0 v4 s4(4) by (simp add: C_def split: option.splits)
      show "r \<notin> dom (list_mem s)
           \<and> (\<exists>ms. is_list s' r ms \<and> length ms = length ns \<and> set ms \<inter> dom (node_mem s) = {}
                 \<and> listLength s' r = listLength s orig
                 \<and> map_option dup (list_mem s' r) = map_option dup (list_mem s orig)
                 \<and> map_option free (list_mem s' r) = map_option free (list_mem s orig)
                 \<and> map_option match (list_mem s' r) = map_option match (list_mem s orig)
                 \<and> (case Option.bind (list_mem s orig) dup of
                       None \<Rightarrow> node_values s' ms = node_values s ns
                     | Some f \<Rightarrow> (node_values s' ms, world s') = dup_values f (node_values s ns) (world s)))"
        unfolding rp using pl r1 r2 r3 r4 ll vals O0 s4(1)
        by (intro conjI exI[of _ ms]) (simp_all add: C_def)
    qed
    show ?thesis by (intro exI[of _ r] exI[of _ s'] conjI g0 g1 lo g2 g3 g4)
  qed
qed


theorem listDup_copy_witness:
  "is_list ex_dup_mem 16 [32, 48] \<and> fresh_allocs ex_dup_mem
   \<and> node_values ex_dup_mem [32, 48] = [5, 6]
   \<and> (\<exists>s'. listDup ex_dup_mem 16 = Some (80, s')
          \<and> is_list s' 16 [32, 48] \<and> node_values s' [32, 48] = [5, 6]
          \<and> (\<exists>ms. is_list s' 80 ms \<and> length ms = 2
                 \<and> (node_values s' ms, world s') = ([105, 106], 2)))"
proof -
  have a: "is_list ex_dup_mem 16 [32, 48]" by (simp add: ex_dup_mem_def is_list_def)
  have b: "fresh_allocs ex_dup_mem" by (simp add: ex_dup_mem_def fresh_allocs_def)
  have val: "node_values ex_dup_mem [32, 48] = [5, 6]" by (simp add: ex_dup_mem_def node_values_def)
  have d: "Option.bind (list_mem ex_dup_mem 16) dup = Some (\<lambda>x w. (x + 100, Suc w))"
    by (simp add: ex_dup_mem_def)
  have w: "world ex_dup_mem = 0" by (simp add: ex_dup_mem_def)
  have r: "\<exists>s'. listDup ex_dup_mem 16 = Some (80, s')"
    by (simp add: ex_dup_mem_def listDup_def listCreate_def zmalloc_def list_init_def list_store_def
          listRewind_def listDup_loop.simps listNext_def AL_START_HEAD_def listAddNodeTail_def
          node_init_def node_store_def)
  from r obtain s0 where s0: "listDup ex_dup_mem 16 = Some (80, s0)" by blast
  from listDup_copy[OF a b] obtain r' s' where
    run: "listDup ex_dup_mem 16 = Some (r', s')" and o: "is_list s' 16 [32, 48]"
    and ov: "node_values s' [32, 48] = node_values ex_dup_mem [32, 48]"
    and res: "r' \<noteq> 0 \<longrightarrow> (\<exists>ms. is_list s' r' ms \<and> length ms = length [32 :: ptr, 48]
                 \<and> (case Option.bind (list_mem ex_dup_mem 16) dup of
                       None \<Rightarrow> node_values s' ms = node_values ex_dup_mem [32, 48]
                     | Some f \<Rightarrow> (node_values s' ms, world s') = dup_values f (node_values ex_dup_mem [32, 48]) (world ex_dup_mem)))"
    by blast
  have e: "r' = 80" "s' = s0" using run s0 by simp_all
  then have "r' \<noteq> 0" by simp
  with res obtain ms where ms: "is_list s' r' ms" "length ms = length [32 :: ptr, 48]"
     "(node_values s' ms, world s') = dup_values (\<lambda>x w. (x + 100, Suc w)) [5, 6] 0"
    unfolding d val w by auto
  have dv: "dup_values (\<lambda>x w. (x + 100, Suc w)) [5 :: ptr, 6] (0::nat) = ([105, 106], 2)" by simp
  have "is_list s' 80 ms \<and> length ms = 2 \<and> (node_values s' ms, world s') = ([105, 106], 2)"
    using ms e dv by simp
  then have "\<exists>ms. is_list s' 80 ms \<and> length ms = 2 \<and> (node_values s' ms, world s') = ([105, 106], 2)" ..
  then have "listDup ex_dup_mem 16 = Some (80, s')
          \<and> is_list s' 16 [32, 48] \<and> node_values s' [32, 48] = [5, 6]
          \<and> (\<exists>ms. is_list s' 80 ms \<and> length ms = 2
                 \<and> (node_values s' ms, world s') = ([105, 106], 2))"
    using run e o ov val by simp
  then show ?thesis using a b val by blast
qed

text \<open>
  C7. A behaviour left unset means identity or no action: with no \<open>keyCompare\<close>,
  \<open>dictCompareKeys\<close> is true (non-zero) exactly when the two key handles are the same
  pointer; with no \<open>valDup\<close>, \<open>dictSetVal\<close> stores the given value handle itself and
  leaves the key alone; with no \<open>valDestructor\<close>, \<open>dictFreeVal\<close> leaves the caller's state
  as it is.
\<close>

theorem dict_unset_behaviours:
  "(keyCompare (type d) = None \<longrightarrow> (dictCompareKeys d key1 key2 \<noteq> 0 \<longleftrightarrow> key1 = key2))
   \<and> (valDup (type d) = None \<longrightarrow> dictSetVal d entry val = entry\<lparr>v := val\<rparr>
         \<and> dictGetVal (dictSetVal d entry val) = val
         \<and> dictGetKey (dictSetVal d entry val) = dictGetKey entry)
   \<and> (valDestructor (type d) = None \<longrightarrow> dictFreeVal d entry w = w)"
  by (simp add: dictCompareKeys_def dictSetVal_def dictFreeVal_def dictGetVal_def dictGetKey_def)

theorem dict_unset_behaviours_witness:
  "keyCompare ex_type = None \<and> valDup ex_type = None \<and> valDestructor ex_type = None
   \<and> dictCompareKeys \<lparr>type = ex_type, privdata = 0, ht0 = ht_reset, ht1 = ht_reset, rehashidx = -1, iterators = 0\<rparr> 7 7 \<noteq> 0
   \<and> dictCompareKeys \<lparr>type = ex_type, privdata = 0, ht0 = ht_reset, ht1 = ht_reset, rehashidx = -1, iterators = 0\<rparr> 7 8 = 0
   \<and> dictSetVal \<lparr>type = ex_type, privdata = 0, ht0 = ht_reset, ht1 = ht_reset, rehashidx = -1, iterators = 0\<rparr>
        \<lparr>key = 7, v = 1\<rparr> 9 = \<lparr>key = 7, v = 9\<rparr>
   \<and> dictFreeVal \<lparr>type = ex_type, privdata = 0, ht0 = ht_reset, ht1 = ht_reset, rehashidx = -1, iterators = 0\<rparr>
        \<lparr>key = 7, v = 1\<rparr> (3::nat) = 3"
  using dict_unset_behaviours[of "\<lparr>type = ex_type, privdata = 0, ht0 = ht_reset, ht1 = ht_reset, rehashidx = -1, iterators = 0\<rparr>"
           7 7 "\<lparr>key = 7, v = 1\<rparr>" 9 3]
        dict_unset_behaviours[of "\<lparr>type = ex_type, privdata = 0, ht0 = ht_reset, ht1 = ht_reset, rehashidx = -1, iterators = 0\<rparr>"
           7 8 "\<lparr>key = 7, v = 1\<rparr>" 9 3]
  by (simp add: ex_type_def)

section \<open>Facts about the dictionary model\<close>

lemma behaviours_upd [simp]:
  "behaviours (d\<lparr>ht0 := a\<rparr>) = behaviours d"
  "behaviours (d\<lparr>ht1 := b\<rparr>) = behaviours d"
  "behaviours (d\<lparr>rehashidx := c\<rparr>) = behaviours d"
  "behaviours (d\<lparr>iterators := n\<rparr>) = behaviours d"
  by (simp_all add: behaviours_def)

lemma beh_compare:
  assumes "behaviours d' = behaviours d" shows "dictCompareKeys d' = dictCompareKeys d"
  using assms by (intro ext) (simp add: dictCompareKeys_def behaviours_def split: option.splits)

lemma beh_keq:
  assumes "behaviours d' = behaviours d" shows "keq d' = keq d"
  by (intro ext) (simp add: keq_def beh_compare[OF assms])

lemma beh_hash:
  assumes "behaviours d' = behaviours d" shows "dictHashKey d' = dictHashKey d"
  using assms by (intro ext) (simp add: dictHashKey_def behaviours_def)

lemma beh_bucket:
  assumes "behaviours d' = behaviours d" shows "bucket d' = bucket d"
  by (intro ext) (simp add: bucket_def beh_hash[OF assms])

lemma beh_setkey:
  assumes "behaviours d' = behaviours d" shows "dictSetKey d' = dictSetKey d"
  using assms by (intro ext) (simp add: dictSetKey_def behaviours_def split: option.splits)

lemma beh_setval:
  assumes "behaviours d' = behaviours d" shows "dictSetVal d' = dictSetVal d"
  using assms by (intro ext) (simp add: dictSetVal_def behaviours_def split: option.splits)

lemma beh_chain_find:
  assumes "behaviours d' = behaviours d" shows "chain_find d' = chain_find d"
  by (intro ext) (simp add: chain_find_def beh_compare[OF assms])

lemma beh_ht_find:
  assumes "behaviours d' = behaviours d" shows "ht_find d' = ht_find d"
  by (intro ext) (simp add: ht_find_def beh_chain_find[OF assms] beh_bucket[OF assms])

lemma beh_ht_ok:
  assumes "behaviours d' = behaviours d" shows "ht_ok d' = ht_ok d"
  by (intro ext) (simp add: ht_ok_def beh_bucket[OF assms])

lemma beh_keys_ok:
  assumes "behaviours d' = behaviours d" shows "keys_ok d' = keys_ok d"
  by (simp add: keys_ok_def beh_keq[OF assms] beh_hash[OF assms] beh_setkey[OF assms])

lemma keq_refl: "keys_ok d \<Longrightarrow> keq d a a"
  by (simp add: keys_ok_def)

lemma keq_sym: "keys_ok d \<Longrightarrow> keq d a b \<Longrightarrow> keq d b a"
  unfolding keys_ok_def by blast

lemma keq_trans: "keys_ok d \<Longrightarrow> keq d a b \<Longrightarrow> keq d b c \<Longrightarrow> keq d a c"
  unfolding keys_ok_def by blast

lemma keq_hash: "keys_ok d \<Longrightarrow> keq d a b \<Longrightarrow> dictHashKey d a = dictHashKey d b"
  unfolding keys_ok_def by blast

lemma keq_bucket: "keys_ok d \<Longrightarrow> keq d a b \<Longrightarrow> bucket d h a = bucket d h b"
  by (simp add: bucket_def keq_hash)

lemma keq_setkey: "keys_ok d \<Longrightarrow> keq d k (key (dictSetKey d e k))"
  unfolding keys_ok_def by blast

lemma bucket_lt:
  assumes "ht_ok d h" "0 < size_ht h"
  shows "bucket d h k < length (table h)"
proof -
  have "dictHashKey d k AND sizemask h \<le> sizemask h" by (rule word_and_le1)
  then have "unat (dictHashKey d k AND sizemask h) \<le> unat (sizemask h)" by (simp add: word_le_nat_alt)
  then show ?thesis using assms by (simp add: ht_ok_def bucket_def)
qed

lemma chain_find_None: "chain_find d k c = None \<longleftrightarrow> (\<forall>e \<in> set c. \<not> keq d k (key e))"
  by (auto simp: chain_find_def find_None_iff keq_def)

lemma chain_find_SomeD: "chain_find d k c = Some e \<Longrightarrow> e \<in> set c \<and> keq d k (key e)"
  by (auto simp: chain_find_def find_Some_iff keq_def)

lemma chain_find_Some:
  assumes "keys_ok d" "\<forall>e \<in> set c. \<forall>e' \<in> set c. keq d (key e) (key e') \<longrightarrow> e = e'"
  shows "chain_find d k c = Some e \<longleftrightarrow> e \<in> set c \<and> keq d k (key e)"
proof
  assume "chain_find d k c = Some e" then show "e \<in> set c \<and> keq d k (key e)"
    by (rule chain_find_SomeD)
next
  assume a: "e \<in> set c \<and> keq d k (key e)"
  then have "chain_find d k c \<noteq> None" by (auto simp: chain_find_None)
  then obtain e' where e': "chain_find d k c = Some e'" by auto
  then have "e' \<in> set c" "keq d k (key e')" using chain_find_SomeD by blast+
  then have "keq d (key e') (key e)" using a keq_sym[OF assms(1)] keq_trans[OF assms(1)] by blast
  then have "e' = e" using assms(2) \<open>e' \<in> set c\<close> a by blast
  then show "chain_find d k c = Some e" using e' by simp
qed

lemma ht_entries_iff: "e \<in> ht_entries h \<longleftrightarrow> (\<exists>i < length (table h). e \<in> set (table h ! i))"
proof -
  have "e \<in> ht_entries h \<longleftrightarrow> (\<exists>c \<in> set (table h). e \<in> set c)" by (auto simp: ht_entries_def)
  also have "\<dots> \<longleftrightarrow> (\<exists>i < length (table h). e \<in> set (table h ! i))"
    by (metis in_set_conv_nth)
  finally show ?thesis .
qed

lemma chain_at_entries: "set (chain_at h i) \<subseteq> ht_entries h"
  by (auto simp: chain_at_def ht_entries_iff)

lemma ht_find_Some:
  assumes "keys_ok d" "ht_ok d h"
    and "\<forall>e \<in> ht_entries h. \<forall>e' \<in> ht_entries h. keq d (key e) (key e') \<longrightarrow> e = e'"
  shows "ht_find d h k = Some e \<longleftrightarrow> e \<in> ht_entries h \<and> keq d k (key e)"
proof -
  let ?c = "chain_at h (bucket d h k)"
  have u: "\<forall>e \<in> set ?c. \<forall>e' \<in> set ?c. keq d (key e) (key e') \<longrightarrow> e = e'"
    using assms(3) chain_at_entries[of h "bucket d h k"] by blast
  have "e \<in> set ?c" if "e \<in> ht_entries h" "keq d k (key e)"
  proof -
    from that(1) obtain i where i: "i < length (table h)" "e \<in> set (table h ! i)"
      by (auto simp: ht_entries_iff)
    then have "bucket d h (key e) = i" using assms(2) by (simp add: ht_ok_def)
    then have "bucket d h k = i" using keq_bucket[OF assms(1) that(2)] by simp
    then show ?thesis using i by (simp add: chain_at_def)
  qed
  then show ?thesis
    unfolding ht_find_def chain_find_Some[OF assms(1) u]
    using chain_at_entries[of h "bucket d h k"] by blast
qed

lemma ht_find_None:
  assumes "keys_ok d" "ht_ok d h"
  shows "ht_find d h k = None \<longleftrightarrow> (\<forall>e \<in> ht_entries h. \<not> keq d k (key e))"
proof -
  let ?c = "chain_at h (bucket d h k)"
  have "e \<in> set ?c" if "e \<in> ht_entries h" "keq d k (key e)" for e
  proof -
    from that(1) obtain i where i: "i < length (table h)" "e \<in> set (table h ! i)"
      by (auto simp: ht_entries_iff)
    then have "bucket d h (key e) = i" using assms(2) by (simp add: ht_ok_def)
    then have "bucket d h k = i" using keq_bucket[OF assms(1) that(2)] by simp
    then show ?thesis using i by (simp add: chain_at_def)
  qed
  then show ?thesis
    unfolding ht_find_def chain_find_None
    using chain_at_entries[of h "bucket d h k"] by blast
qed

lemma ht_entries_unalloc: "ht_ok d h \<Longrightarrow> size_ht h = 0 \<Longrightarrow> ht_entries h = {}"
  by (simp add: ht_ok_def ht_entries_def)

lemma dict_lookup_Some:
  assumes "keys_ok d" "dict_inv d"
  shows "dict_lookup d k = Some e \<longleftrightarrow> e \<in> dict_entries d \<and> keq d k (key e)"
proof -
  from assms(2) have ok: "ht_ok d (ht0 d)" "ht_ok d (ht1 d)"
    and u: "\<forall>e \<in> dict_entries d. \<forall>e' \<in> dict_entries d. keq d (key e) (key e') \<longrightarrow> e = e'"
    and nr: "\<not> dictIsRehashing d \<Longrightarrow> size_ht (ht1 d) = 0"
    by (auto simp: dict_inv_def split: if_splits)
  have u0: "\<forall>e \<in> ht_entries (ht0 d). \<forall>e' \<in> ht_entries (ht0 d). keq d (key e) (key e') \<longrightarrow> e = e'"
    and u1: "\<forall>e \<in> ht_entries (ht1 d). \<forall>e' \<in> ht_entries (ht1 d). keq d (key e) (key e') \<longrightarrow> e = e'"
    using u by (auto simp: dict_entries_def)
  note f0 = ht_find_Some[OF assms(1) ok(1) u0] ht_find_None[OF assms(1) ok(1)]
  note f1 = ht_find_Some[OF assms(1) ok(2) u1] ht_find_None[OF assms(1) ok(2)]
  have e1: "\<not> dictIsRehashing d \<Longrightarrow> ht_entries (ht1 d) = {}"
    using nr ht_entries_unalloc[OF ok(2)] by simp
  show ?thesis
  proof (cases "ht_find d (ht0 d) k")
    case (Some e0)
    then have a: "e0 \<in> ht_entries (ht0 d)" "keq d k (key e0)" using f0(1) by auto
    have "e = e0" if "e \<in> dict_entries d" "keq d k (key e)"
    proof -
      have "keq d (key e0) (key e)" using a(2) that(2) keq_sym[OF assms(1)] keq_trans[OF assms(1)] by blast
      then show ?thesis using u a(1) that(1) by (auto simp: dict_entries_def)
    qed
    then show ?thesis using Some a by (auto simp: dict_lookup_def dict_entries_def)
  next
    case None
    then have n0: "\<forall>e \<in> ht_entries (ht0 d). \<not> keq d k (key e)" using f0(2) by simp
    show ?thesis
    proof (cases "dictIsRehashing d")
      case True
      then show ?thesis using None n0 f1(1) by (auto simp: dict_lookup_def dict_entries_def)
    next
      case False
      then show ?thesis using None n0 e1 by (auto simp: dict_lookup_def dict_entries_def)
    qed
  qed
qed

lemma dict_lookup_None:
  assumes "keys_ok d" "dict_inv d"
  shows "dict_lookup d k = None \<longleftrightarrow> (\<forall>e \<in> dict_entries d. \<not> keq d k (key e))"
proof -
  have "dict_lookup d k = None \<longleftrightarrow> (\<forall>e. dict_lookup d k \<noteq> Some e)" by auto
  then show ?thesis unfolding dict_lookup_Some[OF assms] by blast
qed

lemma bucket_mask: "sizemask h' = sizemask h \<Longrightarrow> bucket d h' k = bucket d h k"
  by (simp add: bucket_def)

lemma ht_entries_update:
  assumes ok: "ht_ok d h" and i: "i < length (table h)"
    and t: "table h' = (table h)[i := c]"
  shows "ht_entries h' = (ht_entries h - set (table h ! i)) \<union> set c"
proof (intro set_eqI iffI)
  fix e assume "e \<in> ht_entries h'"
  then obtain j where j: "j < length (table h)" "e \<in> set ((table h)[i := c] ! j)"
    unfolding ht_entries_iff t by auto
  show "e \<in> (ht_entries h - set (table h ! i)) \<union> set c"
  proof (cases "j = i")
    case True then show ?thesis using j i by simp
  next
    case False
    then have ej: "e \<in> set (table h ! j)" using j by simp
    then have "bucket d h (key e) = j" using ok j(1) by (simp add: ht_ok_def)
    then have "e \<notin> set (table h ! i)" using ok i False by (auto simp: ht_ok_def)
    moreover have "e \<in> ht_entries h" using ej j(1) by (auto simp: ht_entries_iff)
    ultimately show ?thesis by simp
  qed
next
  fix e assume e: "e \<in> (ht_entries h - set (table h ! i)) \<union> set c"
  show "e \<in> ht_entries h'"
  proof (cases "e \<in> set c")
    case True
    then show ?thesis unfolding ht_entries_iff t using i by (auto intro!: exI[of _ i])
  next
    case False
    then obtain j where j: "j < length (table h)" "e \<in> set (table h ! j)" and ni: "e \<notin> set (table h ! i)"
      using e by (auto simp: ht_entries_iff)
    then have "j \<noteq> i" by auto
    then show ?thesis unfolding ht_entries_iff t using j by (auto intro!: exI[of _ j])
  qed
qed

lemma ht_ok_update:
  assumes ok: "ht_ok d h" and i: "i < length (table h)"
    and t: "table h' = (table h)[i := c]" "size_ht h' = size_ht h" "sizemask h' = sizemask h"
    and c: "distinct c" "\<forall>e \<in> set c. bucket d h (key e) = i"
  shows "ht_ok d h'"
proof -
  have b: "\<And>k. bucket d h' k = bucket d h k" using t(3) by (rule bucket_mask)
  have "\<forall>j < length (table h'). (\<forall>e \<in> set (table h' ! j). bucket d h' (key e) = j) \<and> distinct (table h' ! j)"
  proof (intro allI impI)
    fix j assume "j < length (table h')"
    then have j: "j < length (table h)" using t(1) by simp
    show "(\<forall>e \<in> set (table h' ! j). bucket d h' (key e) = j) \<and> distinct (table h' ! j)"
    proof (cases "j = i")
      case True then show ?thesis using c i t(1) b by simp
    next
      case False then show ?thesis using ok j t(1) b by (simp add: ht_ok_def)
    qed
  qed
  then show ?thesis using ok t by (simp add: ht_ok_def)
qed

lemma chain_at_nth: "i < length (table h) \<Longrightarrow> chain_at h i = table h ! i"
  by (simp add: chain_at_def)

lemma link_head_ok:
  assumes ok: "ht_ok d h" and s: "0 < size_ht h" and n: "e \<notin> ht_entries h"
  shows "ht_ok d (link_head e (bucket d h (key e)) h)"
    and "ht_entries (link_head e (bucket d h (key e)) h) = insert e (ht_entries h)"
    and "size_ht (link_head e (bucket d h (key e)) h) = size_ht h"
    and "sizemask (link_head e (bucket d h (key e)) h) = sizemask h"
proof -
  let ?i = "bucket d h (key e)"
  let ?h' = "link_head e ?i h"
  have i: "?i < length (table h)" using bucket_lt[OF ok s] .
  have t: "table ?h' = (table h)[?i := e # table h ! ?i]" "size_ht ?h' = size_ht h" "sizemask ?h' = sizemask h"
    using i by (simp_all add: link_head_def chain_at_def)
  have sub: "set (table h ! ?i) \<subseteq> ht_entries h" using i by (auto simp: ht_entries_iff)
  have c: "distinct (e # table h ! ?i)" "\<forall>x \<in> set (e # table h ! ?i). bucket d h (key x) = ?i"
    using ok i n sub by (auto simp: ht_ok_def)
  show "ht_ok d ?h'" by (rule ht_ok_update[OF ok i t c])
  show "ht_entries ?h' = insert e (ht_entries h)"
    unfolding ht_entries_update[OF ok i t(1)] using sub by auto
  show "size_ht ?h' = size_ht h" "sizemask ?h' = sizemask h" using t by simp_all
qed

lemma fold_link_ok:
  assumes "ht_ok d h" "0 < size_ht h" "distinct c" "set c \<inter> ht_entries h = {}"
  shows "ht_ok d (fold (\<lambda>e h. link_head e (bucket d h (key e)) h) c h)
       \<and> ht_entries (fold (\<lambda>e h. link_head e (bucket d h (key e)) h) c h) = set c \<union> ht_entries h
       \<and> size_ht (fold (\<lambda>e h. link_head e (bucket d h (key e)) h) c h) = size_ht h"
  using assms
proof (induction c arbitrary: h)
  case Nil then show ?case by simp
next
  case (Cons e c)
  let ?h' = "link_head e (bucket d h (key e)) h"
  have n: "e \<notin> ht_entries h" using Cons.prems(4) by auto
  note L = link_head_ok[OF Cons.prems(1,2) n]
  have "set c \<inter> ht_entries ?h' = {}" using Cons.prems(3,4) L(2) by auto
  from Cons.IH[OF L(1) _ _ this] L(3) Cons.prems(2,3) L(2)
  show ?case by auto
qed

lemma dict_invD:
  assumes "dict_inv d"
  shows "ht_ok d (ht0 d)" "ht_ok d (ht1 d)"
    "\<And>e e'. e \<in> dict_entries d \<Longrightarrow> e' \<in> dict_entries d \<Longrightarrow> keq d (key e) (key e') \<Longrightarrow> e = e'"
    "ht_entries (ht0 d) \<inter> ht_entries (ht1 d) = {}"
    "dictIsRehashing d \<Longrightarrow> 0 \<le> rehashidx d \<and> 0 < size_ht (ht0 d) \<and> 0 < size_ht (ht1 d)
        \<and> (\<forall>i < nat (rehashidx d). chain_at (ht0 d) i = [])"
    "\<not> dictIsRehashing d \<Longrightarrow> size_ht (ht1 d) = 0"
  using assms unfolding dict_inv_def by (auto split: if_splits)

lemma dict_invI:
  assumes "ht_ok d (ht0 d)" "ht_ok d (ht1 d)"
    "\<And>e e'. e \<in> dict_entries d \<Longrightarrow> e' \<in> dict_entries d \<Longrightarrow> keq d (key e) (key e') \<Longrightarrow> e = e'"
    "ht_entries (ht0 d) \<inter> ht_entries (ht1 d) = {}"
    "dictIsRehashing d \<Longrightarrow> 0 \<le> rehashidx d \<and> 0 < size_ht (ht0 d) \<and> 0 < size_ht (ht1 d)
        \<and> (\<forall>i < nat (rehashidx d). chain_at (ht0 d) i = [])"
    "\<not> dictIsRehashing d \<Longrightarrow> size_ht (ht1 d) = 0"
  shows "dict_inv d"
  using assms unfolding dict_inv_def by (auto split: if_splits)

lemma reorganised_refl: "dict_inv d \<Longrightarrow> reorganised d d"
  by (simp add: reorganised_def)

lemma reorganised_trans: "reorganised d d' \<Longrightarrow> reorganised d' d'' \<Longrightarrow> reorganised d d''"
  by (simp add: reorganised_def)

lemma rehash_skip_ok:
  assumes inv: "dict_inv d" and r: "dictIsRehashing d"
    and e: "chain_at (ht0 d) (nat (rehashidx d)) = []"
  shows "reorganised d (d\<lparr>rehashidx := rehashidx d + 1\<rparr>)"
    and "dictIsRehashing (d\<lparr>rehashidx := rehashidx d + 1\<rparr>)"
proof -
  let ?d = "d\<lparr>rehashidx := rehashidx d + 1\<rparr>"
  note D = dict_invD[OF inv]
  have b: "behaviours ?d = behaviours d" by simp
  have idx: "0 \<le> rehashidx d" using D(5)[OF r] by simp
  show r': "dictIsRehashing ?d" using idx by (simp add: dictIsRehashing_def)
  have emp: "\<forall>i < nat (rehashidx d + 1). chain_at (ht0 d) i = []"
  proof (intro allI impI)
    fix i assume "i < nat (rehashidx d + 1)"
    then have "i < nat (rehashidx d) \<or> i = nat (rehashidx d)" using idx by auto
    then show "chain_at (ht0 d) i = []" using D(5)[OF r] e by auto
  qed
  have "dict_inv ?d"
  proof (rule dict_invI)
    show "ht_ok ?d (ht0 ?d)" "ht_ok ?d (ht1 ?d)" using D(1,2) by (simp_all add: beh_ht_ok[OF b])
    show "\<And>e e'. e \<in> dict_entries ?d \<Longrightarrow> e' \<in> dict_entries ?d \<Longrightarrow> keq ?d (key e) (key e') \<Longrightarrow> e = e'"
      using D(3) by (simp add: beh_keq[OF b] dict_entries_def)
    show "ht_entries (ht0 ?d) \<inter> ht_entries (ht1 ?d) = {}" using D(4) by simp
    show "dictIsRehashing ?d \<Longrightarrow> 0 \<le> rehashidx ?d \<and> 0 < size_ht (ht0 ?d) \<and> 0 < size_ht (ht1 ?d)
        \<and> (\<forall>i < nat (rehashidx ?d). chain_at (ht0 ?d) i = [])"
      using D(5)[OF r] emp by simp
    show "\<not> dictIsRehashing ?d \<Longrightarrow> size_ht (ht1 ?d) = 0" using r' by simp
  qed
  then show "reorganised d ?d" by (simp add: reorganised_def dict_entries_def)
qed

lemma rehash_bucket_ok:
  assumes inv: "dict_inv d" and r: "dictIsRehashing d"
    and lt: "rehashidx d < int (size_ht (ht0 d))"
  shows "reorganised d (rehash_bucket d)" and "dictIsRehashing (rehash_bucket d)"
    and "size_ht (ht0 (rehash_bucket d)) = size_ht (ht0 d)"
    and "size_ht (ht1 (rehash_bucket d)) = size_ht (ht1 d)"
proof -
  note D = dict_invD[OF inv]
  let ?i = "nat (rehashidx d)"
  let ?c = "chain_at (ht0 d) ?i"
  let ?h1 = "fold (\<lambda>e h. link_head e (bucket d h (key e)) h) ?c (ht1 d)"
  let ?h0 = "(ht0 d)\<lparr>table := (table (ht0 d))[?i := []], used := used (ht0 d) - length ?c\<rparr>"
  let ?d = "d\<lparr>ht0 := ?h0, ht1 := ?h1, rehashidx := rehashidx d + 1\<rparr>"
  have E: "rehash_bucket d = ?d" by (simp add: rehash_bucket_def Let_def)
  have idx: "0 \<le> rehashidx d" and s1: "0 < size_ht (ht1 d)" using D(5)[OF r] by simp_all
  have len0: "length (table (ht0 d)) = size_ht (ht0 d)" using D(1) by (simp add: ht_ok_def)
  have i: "?i < length (table (ht0 d))" using lt idx len0 by simp
  have c: "?c = table (ht0 d) ! ?i" using i by (simp add: chain_at_def)
  have csub: "set ?c \<subseteq> ht_entries (ht0 d)" by (rule chain_at_entries)
  have cd: "distinct ?c" using D(1) i c by (simp add: ht_ok_def)
  have cx: "set ?c \<inter> ht_entries (ht1 d) = {}" using csub D(4) by auto
  from fold_link_ok[OF D(2) s1 cd cx]
  have h1: "ht_ok d ?h1" "ht_entries ?h1 = set ?c \<union> ht_entries (ht1 d)" "size_ht ?h1 = size_ht (ht1 d)"
    by simp_all
  have t0: "table ?h0 = (table (ht0 d))[?i := []]" "size_ht ?h0 = size_ht (ht0 d)"
      "sizemask ?h0 = sizemask (ht0 d)" by simp_all
  have h0: "ht_ok d ?h0" by (rule ht_ok_update[OF D(1) i t0]) simp_all
  have e0: "ht_entries ?h0 = ht_entries (ht0 d) - set ?c"
    using ht_entries_update[OF D(1) i t0(1)] c by simp
  have b: "behaviours ?d = behaviours d" by simp
  have ent: "dict_entries ?d = dict_entries d" using e0 h1(2) csub by (auto simp: dict_entries_def)
  have r': "dictIsRehashing ?d" using idx by (simp add: dictIsRehashing_def)
  have emp: "\<forall>j < nat (rehashidx d + 1). chain_at ?h0 j = []"
  proof (intro allI impI)
    fix j assume "j < nat (rehashidx d + 1)"
    then have "j < ?i \<or> j = ?i" using idx by auto
    then show "chain_at ?h0 j = []"
    proof
      assume j: "j < ?i"
      then have "chain_at (ht0 d) j = []" using D(5)[OF r] by simp
      then show ?thesis using j i by (simp add: chain_at_def)
    next
      assume "j = ?i" then show ?thesis using i by (simp add: chain_at_def)
    qed
  qed
  have "dict_inv ?d"
  proof (rule dict_invI)
    show "ht_ok ?d (ht0 ?d)" "ht_ok ?d (ht1 ?d)" using h0 h1(1) by (simp_all add: beh_ht_ok[OF b])
    show "\<And>e e'. e \<in> dict_entries ?d \<Longrightarrow> e' \<in> dict_entries ?d \<Longrightarrow> keq ?d (key e) (key e') \<Longrightarrow> e = e'"
      unfolding ent beh_keq[OF b] using D(3) by blast
    show "ht_entries (ht0 ?d) \<inter> ht_entries (ht1 ?d) = {}" using e0 h1(2) D(4) by auto
    show "dictIsRehashing ?d \<Longrightarrow> 0 \<le> rehashidx ?d \<and> 0 < size_ht (ht0 ?d) \<and> 0 < size_ht (ht1 ?d)
        \<and> (\<forall>i < nat (rehashidx ?d). chain_at (ht0 ?d) i = [])"
      using D(5)[OF r] emp h1(3) by simp
    show "\<not> dictIsRehashing ?d \<Longrightarrow> size_ht (ht1 ?d) = 0" using r' by simp
  qed
  then show "reorganised d (rehash_bucket d)" unfolding E using ent by (simp add: reorganised_def)
  show "dictIsRehashing (rehash_bucket d)" unfolding E by (rule r')
  show "size_ht (ht0 (rehash_bucket d)) = size_ht (ht0 d)" unfolding E by simp
  show "size_ht (ht1 (rehash_bucket d)) = size_ht (ht1 d)" unfolding E using h1(3) by simp
qed

lemma ht_ok_reset: "ht_ok d ht_reset"
  by (simp add: ht_ok_def ht_reset_def)

lemma ht_entries_reset: "ht_entries ht_reset = {}"
  by (simp add: ht_entries_def ht_reset_def)

lemma rehash_finish_ok:
  assumes inv: "dict_inv d" and r: "dictIsRehashing d"
    and ge: "int (size_ht (ht0 d)) \<le> rehashidx d"
  shows "reorganised d (rehash_finish d)" and "\<not> dictIsRehashing (rehash_finish d)"
proof -
  note D = dict_invD[OF inv]
  let ?d = "rehash_finish d"
  have len0: "length (table (ht0 d)) = size_ht (ht0 d)" using D(1) by (simp add: ht_ok_def)
  have "ht_entries (ht0 d) = {}"
  proof -
    have "\<forall>i < length (table (ht0 d)). table (ht0 d) ! i = []"
    proof (intro allI impI)
      fix i assume i: "i < length (table (ht0 d))"
      then have "i < nat (rehashidx d)" using ge len0 by simp
      then have "chain_at (ht0 d) i = []" using D(5)[OF r] by simp
      then show "table (ht0 d) ! i = []" using i by (simp add: chain_at_def)
    qed
    then show ?thesis by (auto simp: ht_entries_iff)
  qed
  then have ent: "dict_entries ?d = dict_entries d"
    by (simp add: rehash_finish_def dict_entries_def ht_entries_reset)
  have b: "behaviours ?d = behaviours d" by (simp add: rehash_finish_def)
  show nr: "\<not> dictIsRehashing ?d" by (simp add: rehash_finish_def dictIsRehashing_def)
  have "dict_inv ?d"
  proof (rule dict_invI)
    show "ht_ok ?d (ht0 ?d)" "ht_ok ?d (ht1 ?d)"
      unfolding beh_ht_ok[OF b] using D(2) by (simp_all add: rehash_finish_def ht_ok_reset)
    show "\<And>e e'. e \<in> dict_entries ?d \<Longrightarrow> e' \<in> dict_entries ?d \<Longrightarrow> keq ?d (key e) (key e') \<Longrightarrow> e = e'"
      unfolding ent beh_keq[OF b] using D(3) by blast
    show "ht_entries (ht0 ?d) \<inter> ht_entries (ht1 ?d) = {}"
      by (simp add: rehash_finish_def ht_entries_reset)
    show "dictIsRehashing ?d \<Longrightarrow> 0 \<le> rehashidx ?d \<and> 0 < size_ht (ht0 ?d) \<and> 0 < size_ht (ht1 ?d)
        \<and> (\<forall>i < nat (rehashidx ?d). chain_at (ht0 ?d) i = [])" using nr by simp
    show "\<not> dictIsRehashing ?d \<Longrightarrow> size_ht (ht1 ?d) = 0" by (simp add: rehash_finish_def ht_reset_def)
  qed
  then show "reorganised d ?d" using ent b by (simp add: reorganised_def rehash_finish_def)
qed

lemma rehash_step_ok:
  "dict_inv d \<Longrightarrow> dictIsRehashing d \<Longrightarrow> reorganised d (snd (rehash_step n d))"
proof (induction n arbitrary: d)
  case 0
  then show ?case by (simp add: reorganised_refl)
next
  case (Suc n)
  show ?case
  proof (cases "int (size_ht (ht0 d)) \<le> rehashidx d")
    case True
    then show ?thesis using rehash_finish_ok(1)[OF Suc.prems True] by simp
  next
    case False
    show ?thesis
    proof (cases "chain_at (ht0 d) (nat (rehashidx d)) = []")
      case True
      note S = rehash_skip_ok[OF Suc.prems True]
      have "dict_inv (d\<lparr>rehashidx := rehashidx d + 1\<rparr>)" using S(1) by (simp add: reorganised_def)
      from Suc.IH[OF this S(2)] S(1) show ?thesis
        using False True by (simp add: reorganised_trans)
    next
      case ne: False
      have lt: "rehashidx d < int (size_ht (ht0 d))" using False by simp
      note B = rehash_bucket_ok[OF Suc.prems lt]
      show ?thesis
      proof (cases "int (size_ht (ht0 (rehash_bucket d))) \<le> rehashidx (rehash_bucket d)")
        case True
        have "dict_inv (rehash_bucket d)" using B(1) by (simp add: reorganised_def)
        from rehash_finish_ok(1)[OF this B(2) True] B(1) show ?thesis
          using False ne True by (simp add: Let_def reorganised_trans)
      next
        case nf: False
        then show ?thesis using False ne B(1) by (simp add: Let_def)
      qed
    qed
  qed
qed

lemma dictRehash_loop_ok:
  "dict_inv d \<Longrightarrow> reorganised d (dictRehash_loop ev n d)"
proof (induction n arbitrary: d)
  case 0 then show ?case by (simp add: reorganised_refl)
next
  case (Suc n)
  show ?case
  proof (cases "dictIsRehashing d")
    case False then show ?thesis using Suc.prems by (simp add: reorganised_refl)
  next
    case True
    obtain a d' where s: "rehash_step ev d = (a, d')" by (cases "rehash_step ev d")
    have R: "reorganised d d'" using rehash_step_ok[OF Suc.prems True, of ev] s by simp
    then have "dict_inv d'" by (simp add: reorganised_def)
    from Suc.IH[OF this] R show ?thesis using True s by (cases a) (auto intro: reorganised_trans)
  qed
qed

lemma dictRehash_ok: "dict_inv d \<Longrightarrow> reorganised d (dictRehash pol d n)"
  by (simp add: dictRehash_def reorganised_refl dictRehash_loop_ok)

lemma dictRehashStep_ok: "dict_inv d \<Longrightarrow> reorganised d (dictRehashStep pol d)"
  by (simp add: dictRehashStep_def dictRehash_ok)

lemma dictRehash_paused: "0 < iterators d \<Longrightarrow> dictRehash pol d n = d"
  by (simp add: dictRehash_def)


lemma dictNextPower_pos: "0 < i \<Longrightarrow> 0 < dictNextPower i n"
proof (induction i n rule: dictNextPower.induct)
  case (1 i n)
  show ?case
  proof (cases "n \<le> i \<or> i = 0")
    case True then show ?thesis using "1.prems" by (subst dictNextPower.simps) simp
  next
    case False
    then have "0 < dictNextPower (2 * i) n" using "1.IH" "1.prems" by simp
    then show ?thesis using False by (subst dictNextPower.simps) simp
  qed
qed

lemma ht_ok_alloc: "0 < n \<Longrightarrow> ht_ok d (ht_alloc n)"
proof -
  assume n: "0 < n"
  have "unat (of_nat (n - 1) :: 64 word) = (n - 1) mod 2 ^ LENGTH(64)" by (rule unat_of_nat)
  also have "\<dots> \<le> n - 1" by (rule mod_less_eq_dividend)
  finally have "unat (of_nat (n - 1) :: 64 word) < n" using n by linarith
  then have m: "unat (sizemask (ht_alloc n)) < n" by (simp only: ht_alloc_def dictht.select_convs)
  have "length (table (ht_alloc n)) = n" "size_ht (ht_alloc n) = n"
    "\<forall>i < length (table (ht_alloc n)). table (ht_alloc n) ! i = []"
    by (simp_all add: ht_alloc_def)
  then show ?thesis using m by (simp add: ht_ok_def)
qed

lemma ht_entries_alloc: "ht_entries (ht_alloc n) = {}"
  by (simp add: ht_entries_def ht_alloc_def)

lemma start_rehash_ok:
  assumes inv: "dict_inv d" and nr: "\<not> dictIsRehashing d" and s: "0 < size_ht (ht0 d)" and n: "0 < n"
  shows "reorganised d (start_rehash n d)"
proof -
  note D = dict_invD[OF inv]
  let ?d = "start_rehash n d"
  have b: "behaviours ?d = behaviours d" by (simp add: start_rehash_def)
  have e1: "ht_entries (ht1 d) = {}" using ht_entries_unalloc[OF D(2) D(6)[OF nr]] .
  have ent: "dict_entries ?d = dict_entries d"
    using e1 by (simp add: start_rehash_def dict_entries_def ht_entries_alloc)
  have "dict_inv ?d"
  proof (rule dict_invI)
    show "ht_ok ?d (ht0 ?d)" "ht_ok ?d (ht1 ?d)"
      unfolding beh_ht_ok[OF b] using D(1) ht_ok_alloc[OF n] by (simp_all add: start_rehash_def)
    show "\<And>e e'. e \<in> dict_entries ?d \<Longrightarrow> e' \<in> dict_entries ?d \<Longrightarrow> keq ?d (key e) (key e') \<Longrightarrow> e = e'"
      unfolding ent beh_keq[OF b] using D(3) by blast
    show "ht_entries (ht0 ?d) \<inter> ht_entries (ht1 ?d) = {}"
      by (simp add: start_rehash_def ht_entries_alloc)
    show "dictIsRehashing ?d \<Longrightarrow> 0 \<le> rehashidx ?d \<and> 0 < size_ht (ht0 ?d) \<and> 0 < size_ht (ht1 ?d)
        \<and> (\<forall>i < nat (rehashidx ?d). chain_at (ht0 ?d) i = [])"
      using s n by (simp add: start_rehash_def ht_alloc_def)
    show "\<not> dictIsRehashing ?d \<Longrightarrow> size_ht (ht1 ?d) = 0"
      by (simp add: start_rehash_def dictIsRehashing_def)
  qed
  then show ?thesis using ent b by (simp add: reorganised_def start_rehash_def)
qed

lemma expand_if_needed_ok:
  assumes inv: "dict_inv d" and s: "0 < size_ht (ht0 d)"
  shows "reorganised d (expand_if_needed pol d)"
proof -
  have "0 < dictNextPower 1 (max (2 * used (ht0 d)) DICT_HT_INITIAL_SIZE)"
    by (rule dictNextPower_pos) simp
  then show ?thesis
    using start_rehash_ok[OF inv _ s] reorganised_refl[OF inv]
    by (simp add: expand_if_needed_def)
qed

lemma first_alloc_ok:
  assumes inv: "dict_inv d" and s: "size_ht (ht0 d) = 0"
  shows "reorganised d (d\<lparr>ht0 := ht_alloc DICT_HT_INITIAL_SIZE\<rparr>)"
    and "\<not> dictIsRehashing d"
proof -
  note D = dict_invD[OF inv]
  let ?d = "d\<lparr>ht0 := ht_alloc DICT_HT_INITIAL_SIZE\<rparr>"
  show nr: "\<not> dictIsRehashing d" using D(5) s by auto
  have b: "behaviours ?d = behaviours d" by simp
  have e0: "ht_entries (ht0 d) = {}" using ht_entries_unalloc[OF D(1) s] .
  have ent: "dict_entries ?d = dict_entries d" using e0 by (simp add: dict_entries_def ht_entries_alloc)
  have "dict_inv ?d"
  proof (rule dict_invI)
    show "ht_ok ?d (ht0 ?d)" "ht_ok ?d (ht1 ?d)"
      unfolding beh_ht_ok[OF b] using D(2) ht_ok_alloc[of DICT_HT_INITIAL_SIZE]
      by (simp_all add: DICT_HT_INITIAL_SIZE_def)
    show "\<And>e e'. e \<in> dict_entries ?d \<Longrightarrow> e' \<in> dict_entries ?d \<Longrightarrow> keq ?d (key e) (key e') \<Longrightarrow> e = e'"
      unfolding ent beh_keq[OF b] using D(3) by blast
    show "ht_entries (ht0 ?d) \<inter> ht_entries (ht1 ?d) = {}" by (simp add: ht_entries_alloc)
    show "dictIsRehashing ?d \<Longrightarrow> 0 \<le> rehashidx ?d \<and> 0 < size_ht (ht0 ?d) \<and> 0 < size_ht (ht1 ?d)
        \<and> (\<forall>i < nat (rehashidx ?d). chain_at (ht0 ?d) i = [])"
      using nr by (simp add: dictIsRehashing_def)
    show "\<not> dictIsRehashing ?d \<Longrightarrow> size_ht (ht1 ?d) = 0" using D(6)[OF nr] by simp
  qed
  then show "reorganised d ?d" using ent by (simp add: reorganised_def)
qed

lemma link_active_ok:
  assumes k: "keys_ok d" and inv: "dict_inv d" and s: "0 < size_ht (ht0 d)"
    and fresh: "\<forall>e' \<in> dict_entries d. \<not> keq d (key e) (key e')"
  shows "inserted d e (if dictIsRehashing d
                then d\<lparr>ht1 := link_head e (bucket d (ht1 d) (key e)) (ht1 d)\<rparr>
                else d\<lparr>ht0 := link_head e (bucket d (ht0 d) (key e)) (ht0 d)\<rparr>)"
    (is "inserted d e ?d")
proof -
  note D = dict_invD[OF inv]
  have en: "e \<notin> dict_entries d" using fresh keq_refl[OF k] by blast
  then have n0: "e \<notin> ht_entries (ht0 d)" and n1: "e \<notin> ht_entries (ht1 d)"
    by (simp_all add: dict_entries_def)
  have b: "behaviours ?d = behaviours d" by simp
  have it: "iterators ?d = iterators d" by simp
  have u: "\<And>x y. x \<in> insert e (dict_entries d) \<Longrightarrow> y \<in> insert e (dict_entries d)
            \<Longrightarrow> keq d (key x) (key y) \<Longrightarrow> x = y"
    using D(3) fresh keq_sym[OF k] by blast
  show ?thesis
  proof (cases "dictIsRehashing d")
    case True
    have s1: "0 < size_ht (ht1 d)" using D(5)[OF True] by simp
    note L = link_head_ok[OF D(2) s1 n1]
    have ent: "dict_entries ?d = insert e (dict_entries d)"
      using True L(2) by (simp add: dict_entries_def)
    have "dict_inv ?d"
    proof (rule dict_invI)
      show "ht_ok ?d (ht0 ?d)" "ht_ok ?d (ht1 ?d)"
        unfolding beh_ht_ok[OF b] using True D(1) L(1) by simp_all
      show "\<And>x y. x \<in> dict_entries ?d \<Longrightarrow> y \<in> dict_entries ?d \<Longrightarrow> keq ?d (key x) (key y) \<Longrightarrow> x = y"
        unfolding ent beh_keq[OF b] by (rule u)
      show "ht_entries (ht0 ?d) \<inter> ht_entries (ht1 ?d) = {}"
        using True L(2) D(4) n0 by simp
      show "dictIsRehashing ?d \<Longrightarrow> 0 \<le> rehashidx ?d \<and> 0 < size_ht (ht0 ?d) \<and> 0 < size_ht (ht1 ?d)
          \<and> (\<forall>i < nat (rehashidx ?d). chain_at (ht0 ?d) i = [])"
        using True D(5)[OF True] L(3) by simp
      show "\<not> dictIsRehashing ?d \<Longrightarrow> size_ht (ht1 ?d) = 0"
        using True by (simp add: dictIsRehashing_def)
    qed
    then show ?thesis using ent b it by (simp only: inserted_def simp_thms)
  next
    case False
    note L = link_head_ok[OF D(1) s n0]
    have ent: "dict_entries ?d = insert e (dict_entries d)"
      using False L(2) by (simp add: dict_entries_def)
    have "dict_inv ?d"
    proof (rule dict_invI)
      show "ht_ok ?d (ht0 ?d)" "ht_ok ?d (ht1 ?d)"
        unfolding beh_ht_ok[OF b] using False D(2) L(1) by simp_all
      show "\<And>x y. x \<in> dict_entries ?d \<Longrightarrow> y \<in> dict_entries ?d \<Longrightarrow> keq ?d (key x) (key y) \<Longrightarrow> x = y"
        unfolding ent beh_keq[OF b] by (rule u)
      show "ht_entries (ht0 ?d) \<inter> ht_entries (ht1 ?d) = {}"
        using False L(2) D(4) n1 by simp
      show "dictIsRehashing ?d \<Longrightarrow> 0 \<le> rehashidx ?d \<and> 0 < size_ht (ht0 ?d) \<and> 0 < size_ht (ht1 ?d)
          \<and> (\<forall>i < nat (rehashidx ?d). chain_at (ht0 ?d) i = [])"
        using False by (simp add: dictIsRehashing_def)
      show "\<not> dictIsRehashing ?d \<Longrightarrow> size_ht (ht1 ?d) = 0"
        using False D(6)[OF False] by simp
    qed
    then show ?thesis using ent b it by (simp only: inserted_def simp_thms)
  qed
qed

lemma reorganised_inserted: "reorganised d d1 \<Longrightarrow> inserted d1 e d2 \<Longrightarrow> inserted d e d2"
  by (simp add: reorganised_def inserted_def)

lemma inserted_reorganised: "inserted d e d1 \<Longrightarrow> reorganised d1 d2 \<Longrightarrow> inserted d e d2"
  by (simp add: reorganised_def inserted_def)

lemma dict_link_ok:
  assumes k: "keys_ok d" and inv: "dict_inv d"
    and fresh: "\<forall>e' \<in> dict_entries d. \<not> keq d (key e) (key e')"
  shows "inserted d e (dict_link pol d e)"
proof -
  define d1 where "d1 = (if size_ht (ht0 d) = 0 then d\<lparr>ht0 := ht_alloc DICT_HT_INITIAL_SIZE\<rparr> else d)"
  define d2 where "d2 = (if dictIsRehashing d1
                then d1\<lparr>ht1 := link_head e (bucket d1 (ht1 d1) (key e)) (ht1 d1)\<rparr>
                else d1\<lparr>ht0 := link_head e (bucket d1 (ht0 d1) (key e)) (ht0 d1)\<rparr>)"
  have E: "dict_link pol d e = expand_if_needed pol d2"
    by (simp add: dict_link_def d1_def d2_def Let_def)
  have R1: "reorganised d d1" and s1: "0 < size_ht (ht0 d1)"
    using first_alloc_ok(1)[OF inv] reorganised_refl[OF inv]
    by (auto simp: d1_def ht_alloc_def DICT_HT_INITIAL_SIZE_def)
  then have inv1: "dict_inv d1" and b1: "behaviours d1 = behaviours d"
    and e1: "dict_entries d1 = dict_entries d" by (simp_all add: reorganised_def)
  have k1: "keys_ok d1" using k by (simp add: beh_keys_ok[OF b1])
  have f1: "\<forall>e' \<in> dict_entries d1. \<not> keq d1 (key e) (key e')"
    using fresh by (simp add: e1 beh_keq[OF b1])
  have I2: "inserted d1 e d2" unfolding d2_def by (rule link_active_ok[OF k1 inv1 s1 f1])
  then have inv2: "dict_inv d2" by (simp add: inserted_def)
  have s2: "0 < size_ht (ht0 d2)"
    using s1 by (simp add: d2_def link_head_def)
  have R3: "reorganised d2 (expand_if_needed pol d2)" by (rule expand_if_needed_ok[OF inv2 s2])
  show ?thesis unfolding E
    by (rule reorganised_inserted[OF R1 inserted_reorganised[OF I2 R3]])
qed





lemma reorganisedD:
  assumes "reorganised d d'"
  shows "dict_inv d'" "dict_entries d' = dict_entries d" "behaviours d' = behaviours d"
    "iterators d' = iterators d"
  using assms by (simp_all add: reorganised_def)

lemma insertedD:
  assumes "inserted d e d'"
  shows "dict_inv d'" "dict_entries d' = insert e (dict_entries d)" "behaviours d' = behaviours d"
    "iterators d' = iterators d"
  using assms by (simp_all add: inserted_def)

lemma dictFind_ok:
  assumes k: "keys_ok d" and inv: "dict_inv d"
  shows "reorganised d (snd (dictFind pol d key1))"
    and "fst (dictFind pol d key1) = Some e \<longleftrightarrow> e \<in> dict_entries d \<and> keq d key1 (key e)"
    and "fst (dictFind pol d key1) = None \<longleftrightarrow> (\<forall>e \<in> dict_entries d. \<not> keq d key1 (key e))"
proof -
  let ?d1 = "dictRehashStep pol d"
  have R: "reorganised d ?d1" by (rule dictRehashStep_ok[OF inv])
  note D = reorganisedD[OF R]
  have k1: "keys_ok ?d1" using k by (simp add: beh_keys_ok[OF D(3)])
  show "reorganised d (snd (dictFind pol d key1))" using R by (simp add: dictFind_def Let_def)
  show "fst (dictFind pol d key1) = Some e \<longleftrightarrow> e \<in> dict_entries d \<and> keq d key1 (key e)"
    using dict_lookup_Some[OF k1 D(1), of key1 e]
    by (simp add: dictFind_def Let_def D(2) beh_keq[OF D(3)])
  show "fst (dictFind pol d key1) = None \<longleftrightarrow> (\<forall>e \<in> dict_entries d. \<not> keq d key1 (key e))"
    using dict_lookup_None[OF k1 D(1), of key1]
    by (simp add: dictFind_def Let_def D(2) beh_keq[OF D(3)])
qed






lemma chain_at_link_head:
  "i < length (table h) \<Longrightarrow> chain_at (link_head e i h) i = e # chain_at h i"
  by (simp add: link_head_def chain_at_def)

lemma expand_if_needed_ht0: "ht0 (expand_if_needed pol d) = ht0 d"
  by (simp add: expand_if_needed_def start_rehash_def)

lemma expand_if_needed_rehashing: "dictIsRehashing d \<Longrightarrow> expand_if_needed pol d = d"
  by (simp add: expand_if_needed_def)

lemma dict_link_head:
  assumes inv: "dict_inv d"
  shows "if dictIsRehashing d
         then chain_at (ht1 (dict_link pol d e)) (bucket d (ht1 (dict_link pol d e)) (key e))
                = e # chain_at (ht1 d) (bucket d (ht1 (dict_link pol d e)) (key e))
              \<and> table (ht0 (dict_link pol d e)) = table (ht0 d)
         else chain_at (ht0 (dict_link pol d e)) (bucket d (ht0 (dict_link pol d e)) (key e))
                = e # chain_at (ht0 d) (bucket d (ht0 (dict_link pol d e)) (key e))"
proof -
  note D = dict_invD[OF inv]
  show ?thesis
  proof (cases "dictIsRehashing d")
    case True
    have s: "0 < size_ht (ht0 d)" "0 < size_ht (ht1 d)" using D(5)[OF True] by simp_all
    let ?i = "bucket d (ht1 d) (key e)"
    have i: "?i < length (table (ht1 d))" by (rule bucket_lt[OF D(2) s(2)])
    have E: "dict_link pol d e = d\<lparr>ht1 := link_head e ?i (ht1 d)\<rparr>"
      using True s by (simp add: dict_link_def Let_def expand_if_needed_def dictIsRehashing_def bucket_def dictHashKey_def)
    have m: "sizemask (link_head e ?i (ht1 d)) = sizemask (ht1 d)" by (simp add: link_head_def)
    show ?thesis using True chain_at_link_head[OF i, of e]
      by (simp add: E bucket_mask[OF m])
  next
    case False
    define d1 where "d1 = (if size_ht (ht0 d) = 0 then d\<lparr>ht0 := ht_alloc DICT_HT_INITIAL_SIZE\<rparr> else d)"
    have b1: "behaviours d1 = behaviours d" and nr1: "\<not> dictIsRehashing d1"
      using False by (simp_all add: d1_def dictIsRehashing_def)
    have ok1: "ht_ok d (ht0 d1)" and s1: "0 < size_ht (ht0 d1)"
      using D(1) ht_ok_alloc[of DICT_HT_INITIAL_SIZE d]
      by (simp_all add: d1_def DICT_HT_INITIAL_SIZE_def ht_alloc_def)
    let ?i = "bucket d (ht0 d1) (key e)"
    have i: "?i < length (table (ht0 d1))" by (rule bucket_lt[OF ok1 s1])
    have old: "chain_at (ht0 d1) j = chain_at (ht0 d) j" for j
    proof (cases "size_ht (ht0 d) = 0")
      case True
      then have "table (ht0 d) = []" using D(1) by (simp add: ht_ok_def)
      then show ?thesis using True by (simp add: d1_def chain_at_def ht_alloc_def)
    next
      case nz: False then show ?thesis by (simp add: d1_def)
    qed
    have E: "ht0 (dict_link pol d e) = link_head e ?i (ht0 d1)"
      using nr1 by (simp add: dict_link_def Let_def d1_def[symmetric] expand_if_needed_ht0
                      beh_bucket[OF b1])
    have m: "sizemask (link_head e ?i (ht0 d1)) = sizemask (ht0 d1)" by (simp add: link_head_def)
    show ?thesis using False chain_at_link_head[OF i, of e]
      by (simp add: E bucket_mask[OF m] old)
  qed
qed




lemma dictCreate_inv: "dict_inv (dictCreate T pd)"
  by (rule dict_invI)
     (simp_all add: dictCreate_def ht_ok_def dict_entries_def ht_entries_def
        dictIsRehashing_def ht_reset_def)

lemma dictCreate_entries: "dict_entries (dictCreate T pd) = {}"
  by (simp add: dictCreate_def dict_entries_def ht_entries_reset)




lemma ex_type_keys_ok: "keys_ok (dictCreate ex_type pd)"
  by (simp add: keys_ok_def keq_def dictCompareKeys_def dictHashKey_def dictSetKey_def
        dictCreate_def ex_type_def)


lemma entry_of_fields:
  "key (entry_of d k val) = (case keyDup (type d) of Some f \<Rightarrow> f (privdata d) k | None \<Rightarrow> k)"
  "v (entry_of d k val) = (case valDup (type d) of Some f \<Rightarrow> f (privdata d) val | None \<Rightarrow> val)"
  by (simp_all add: entry_of_def dictSetVal_def dictSetKey_def split: option.splits)




lemma key_setkey_fresh:
  assumes k: "keys_ok d" and absent: "\<forall>e \<in> dict_entries d. \<not> keq d key1 (key e)"
  shows "\<forall>e' \<in> dict_entries d. \<not> keq d (key (dictSetKey d x key1)) (key e')"
proof
  fix e' assume e': "e' \<in> dict_entries d"
  show "\<not> keq d (key (dictSetKey d x key1)) (key e')"
  proof
    assume "keq d (key (dictSetKey d x key1)) (key e')"
    then have "keq d key1 (key e')" using keq_setkey[OF k, of key1 x] keq_trans[OF k] by blast
    then show False using absent e' by blast
  qed
qed

lemma dictAddOrFind_ok:
  assumes k: "keys_ok d" and inv: "dict_inv d"
  shows "case fst (dictFind pol d key1) of
           Some e0 \<Rightarrow> dictAddOrFind pol d key1 v0 = (e0, snd (dictFind pol d key1))
                      \<and> reorganised d (snd (dictAddOrFind pol d key1 v0))
         | None \<Rightarrow> dictAddOrFind pol d key1 v0
                      = (dictSetKey d \<lparr>key = 0, v = v0\<rparr> key1,
                         dict_link pol (snd (dictFind pol d key1)) (dictSetKey d \<lparr>key = 0, v = v0\<rparr> key1))
                      \<and> inserted d (dictSetKey d \<lparr>key = 0, v = v0\<rparr> key1) (snd (dictAddOrFind pol d key1 v0))"
proof -
  obtain r d1 where F: "dictFind pol d key1 = (r, d1)" by (cases "dictFind pol d key1")
  have R: "reorganised d d1" using dictFind_ok(1)[OF k inv, of pol key1] F by simp
  note D = reorganisedD[OF R]
  have k1: "keys_ok d1" using k by (simp add: beh_keys_ok[OF D(3)])
  show ?thesis
  proof (cases r)
    case (Some e0)
    then show ?thesis using F R by (simp add: dictAddOrFind_def)
  next
    case None
    let ?e = "dictSetKey d \<lparr>key = 0, v = v0\<rparr> key1"
    have se: "dictSetKey d1 \<lparr>key = 0, v = v0\<rparr> key1 = ?e" by (simp add: beh_setkey[OF D(3)])
    have absent: "\<forall>e \<in> dict_entries d. \<not> keq d key1 (key e)"
      using dictFind_ok(3)[OF k inv, of pol key1] F None by simp
    have fresh: "\<forall>e' \<in> dict_entries d1. \<not> keq d1 (key ?e) (key e')"
      using key_setkey_fresh[OF k absent, of "\<lparr>key = 0, v = v0\<rparr>"] by (simp add: D(2) beh_keq[OF D(3)])
    have I: "inserted d1 ?e (dict_link pol d1 ?e)" by (rule dict_link_ok[OF k1 D(1) fresh])
    have "inserted d ?e (dict_link pol d1 ?e)" by (rule reorganised_inserted[OF R I])
    then show ?thesis using None F se by (simp add: dictAddOrFind_def Let_def)
  qed
qed

text \<open>
  C6. \<open>dictAddOrFind\<close> on a well-formed dictionary. When \<open>dictFind\<close> finds the key it
  returns that entry and the dictionary the lookup leaves, whose entries are those it had.
  Otherwise it returns a new entry, whose key is set as \<open>dictAdd\<close> sets it, and the
  dictionary holds this entry in addition; when the value cell happens to hold what
  \<open>dictAdd\<close> would store for a value, the entry and the dictionary are exactly those of
  that \<open>dictAdd\<close>. Either way a second \<open>dictAddOrFind\<close> of the same key returns the same
  entry and leaves the entries as they are.
\<close>

theorem dictAddOrFind_idempotent:
  assumes "keys_ok d" and "dict_inv d"
    and "dictAddOrFind pol d k v0 = (e, d')" and "dictAddOrFind pol d' k v1 = (e2, d'')"
  shows "(case fst (dictFind pol d k) of
            Some e0 \<Rightarrow> e = e0 \<and> d' = snd (dictFind pol d k) \<and> dict_entries d' = dict_entries d
          | None \<Rightarrow> e = dictSetKey d \<lparr>key = 0, v = v0\<rparr> k \<and> e \<notin> dict_entries d
                    \<and> dict_entries d' = insert e (dict_entries d)
                    \<and> (\<forall>val. v0 = v (entry_of d k val) \<longrightarrow>
                           e = entry_of d k val \<and> d' = snd (dictAdd pol d k val)))
         \<and> e2 = e \<and> dict_entries d'' = dict_entries d'"
proof -
  note k = assms(1) and inv = assms(2)
  note A = dictAddOrFind_ok[OF k inv, of pol k v0]
  have first: "(case fst (dictFind pol d k) of
            Some e0 \<Rightarrow> e = e0 \<and> d' = snd (dictFind pol d k) \<and> dict_entries d' = dict_entries d
          | None \<Rightarrow> e = dictSetKey d \<lparr>key = 0, v = v0\<rparr> k \<and> e \<notin> dict_entries d
                    \<and> dict_entries d' = insert e (dict_entries d)
                    \<and> (\<forall>val. v0 = v (entry_of d k val) \<longrightarrow>
                           e = entry_of d k val \<and> d' = snd (dictAdd pol d k val)))"
    and post: "dict_inv d' \<and> behaviours d' = behaviours d \<and> e \<in> dict_entries d' \<and> keq d k (key e)"
  proof -
    show "(case fst (dictFind pol d k) of
            Some e0 \<Rightarrow> e = e0 \<and> d' = snd (dictFind pol d k) \<and> dict_entries d' = dict_entries d
          | None \<Rightarrow> e = dictSetKey d \<lparr>key = 0, v = v0\<rparr> k \<and> e \<notin> dict_entries d
                    \<and> dict_entries d' = insert e (dict_entries d)
                    \<and> (\<forall>val. v0 = v (entry_of d k val) \<longrightarrow>
                           e = entry_of d k val \<and> d' = snd (dictAdd pol d k val)))"
    proof (cases "fst (dictFind pol d k)")
      case (Some e0)
      have A': "dictAddOrFind pol d k v0 = (e0, snd (dictFind pol d k))"
        and R': "reorganised d (snd (dictAddOrFind pol d k v0))" using A unfolding Some option.case by blast+
      have "e = e0" "d' = snd (dictFind pol d k)" using A' assms(3) by simp_all
      moreover have "dict_entries d' = dict_entries d" using reorganisedD(2)[OF R'] assms(3) by simp
      ultimately show ?thesis using Some by simp
    next
      case None
      have absent: "\<forall>x \<in> dict_entries d. \<not> keq d k (key x)"
        using dictFind_ok(3)[OF k inv, of pol k] None by simp
      have A': "dictAddOrFind pol d k v0
                      = (dictSetKey d \<lparr>key = 0, v = v0\<rparr> k,
                         dict_link pol (snd (dictFind pol d k)) (dictSetKey d \<lparr>key = 0, v = v0\<rparr> k))"
        and I': "inserted d (dictSetKey d \<lparr>key = 0, v = v0\<rparr> k) (snd (dictAddOrFind pol d k v0))"
        using A unfolding None option.case by blast+
      have e: "e = dictSetKey d \<lparr>key = 0, v = v0\<rparr> k"
        and d': "d' = dict_link pol (snd (dictFind pol d k)) e"
        using A' assms(3) by simp_all
      have I: "inserted d e d'" using I' e assms(3) by simp
      have nin: "e \<notin> dict_entries d" using absent keq_setkey[OF k, of k "\<lparr>key = 0, v = v0\<rparr>"] e by blast
      have same: "e = entry_of d k val \<and> d' = snd (dictAdd pol d k val)" if "v0 = v (entry_of d k val)" for val
      proof -
        have b: "behaviours (snd (dictFind pol d k)) = behaviours d"
          using reorganisedD(3)[OF dictFind_ok(1)[OF k inv]] .
        have "key e = key (entry_of d k val)"
          unfolding e entry_of_fields by (simp add: dictSetKey_def split: option.splits)
        moreover have "v e = v0" unfolding e by (simp add: dictSetKey_def split: option.splits)
        ultimately have ee: "e = entry_of d k val" using that by (intro dictEntry.equality) simp_all
        obtain d1 where F: "dictFind pol d k = (None, d1)" using None by (cases "dictFind pol d k") simp
        have b1: "behaviours d1 = behaviours d" using b F by simp
        have "snd (dictAdd pol d k val) = dict_link pol (snd (dictFind pol d k)) (entry_of d k val)"
          using F by (simp add: dictAdd_def entry_of_def beh_setkey[OF b1] beh_setval[OF b1])
        then show ?thesis using ee d' by simp
      qed
      have same': "\<forall>val. v0 = v (entry_of d k val) \<longrightarrow>
                           e = entry_of d k val \<and> d' = snd (dictAdd pol d k val)"
        using same by blast
      show ?thesis unfolding None option.case using e nin insertedD(2)[OF I] same' by blast
    qed
    show "dict_inv d' \<and> behaviours d' = behaviours d \<and> e \<in> dict_entries d' \<and> keq d k (key e)"
    proof (cases "fst (dictFind pol d k)")
      case (Some e0)
      have A': "dictAddOrFind pol d k v0 = (e0, snd (dictFind pol d k))"
        and R': "reorganised d (snd (dictAddOrFind pol d k v0))" using A unfolding Some option.case by blast+
      have e: "e = e0" using A' assms(3) by simp
      have R: "reorganised d d'" using R' assms(3) by simp
      have "e0 \<in> dict_entries d \<and> keq d k (key e0)" using dictFind_ok(2)[OF k inv, of pol k e0] Some by simp
      then show ?thesis using e reorganisedD[OF R] by simp
    next
      case None
      have A': "dictAddOrFind pol d k v0
                      = (dictSetKey d \<lparr>key = 0, v = v0\<rparr> k,
                         dict_link pol (snd (dictFind pol d k)) (dictSetKey d \<lparr>key = 0, v = v0\<rparr> k))"
        and I': "inserted d (dictSetKey d \<lparr>key = 0, v = v0\<rparr> k) (snd (dictAddOrFind pol d k v0))"
        using A unfolding None option.case by blast+
      have e: "e = dictSetKey d \<lparr>key = 0, v = v0\<rparr> k" using A' assms(3) by simp
      have I: "inserted d e d'" using I' e assms(3) by simp
      show ?thesis using insertedD[OF I] keq_setkey[OF k, of k "\<lparr>key = 0, v = v0\<rparr>"] e by simp
    qed
  qed
  have inv': "dict_inv d'" using post by blast
  have b': "behaviours d' = behaviours d" using post by blast
  have k': "keys_ok d'" using k unfolding beh_keys_ok[OF b'] .
  have mem: "e \<in> dict_entries d' \<and> keq d' k (key e)" unfolding beh_keq[OF b'] using post by blast
  have f2: "fst (dictFind pol d' k) = Some e"
    using dictFind_ok(2)[OF k' inv', of pol k e] mem by blast
  note A2 = dictAddOrFind_ok[OF k' inv', of pol k v1]
  have A2': "dictAddOrFind pol d' k v1 = (e, snd (dictFind pol d' k))"
    and R2: "reorganised d' (snd (dictAddOrFind pol d' k v1))" using A2 unfolding f2 option.case by blast+
  have "e2 = e \<and> reorganised d' d''" using A2' R2 assms(4) by simp
  then have "e2 = e \<and> dict_entries d'' = dict_entries d'" using reorganisedD(2) by blast
  then show ?thesis using first by simp
qed

theorem dictAddOrFind_idempotent_witness:
  "keys_ok (dictCreate ex_type 0 :: nat dict) \<and> dict_inv (dictCreate ex_type 0 :: nat dict)
   \<and> fst (dictFind ex_policy (dictCreate ex_type 0 :: nat dict) 7) = None
   \<and> fst (dictAddOrFind ex_policy (dictCreate ex_type 0 :: nat dict) 7 3) = \<lparr>key = 7, v = 3\<rparr>
   \<and> fst (dictAddOrFind ex_policy
            (snd (dictAddOrFind ex_policy (dictCreate ex_type 0 :: nat dict) 7 3)) 7 9)
       = \<lparr>key = 7, v = 3\<rparr>
   \<and> dict_entries (snd (dictAddOrFind ex_policy (dictCreate ex_type 0 :: nat dict) 7 3))
       = {\<lparr>key = 7, v = 3\<rparr>}
   \<and> dict_entries (snd (dictAddOrFind ex_policy
            (snd (dictAddOrFind ex_policy (dictCreate ex_type 0 :: nat dict) 7 3)) 7 9))
       = {\<lparr>key = 7, v = 3\<rparr>}"
proof -
  let ?c = "dictCreate ex_type 0 :: nat dict"
  let ?r1 = "dictAddOrFind ex_policy ?c 7 3"
  let ?r2 = "dictAddOrFind ex_policy (snd ?r1) 7 9"
  have k: "keys_ok ?c" by (rule ex_type_keys_ok)
  have inv: "dict_inv ?c" by (rule dictCreate_inv)
  have f: "fst (dictFind ex_policy ?c 7) = None"
    unfolding dictFind_ok(3)[OF k inv] by (simp add: dictCreate_entries)
  have sk: "dictSetKey ?c \<lparr>key = 0, v = 3\<rparr> 7 = \<lparr>key = 7, v = 3\<rparr>"
    by (simp add: dictSetKey_def dictCreate_def ex_type_def)
  have p1: "?r1 = (fst ?r1, snd ?r1)" and p2: "?r2 = (fst ?r2, snd ?r2)" by simp_all
  note W = dictAddOrFind_idempotent[OF k inv p1 p2]
  have W1: "fst ?r1 = \<lparr>key = 7, v = 3\<rparr>"
    and W2: "dict_entries (snd ?r1) = insert (fst ?r1) (dict_entries ?c)"
    and W3: "fst ?r2 = fst ?r1" and W4: "dict_entries (snd ?r2) = dict_entries (snd ?r1)"
    using W unfolding f option.case sk by blast+
  have e1: "dict_entries (snd ?r1) = {\<lparr>key = 7, v = 3\<rparr>}"
    unfolding W2 W1 by (simp add: dictCreate_entries)
  show ?thesis using k inv f W1 W3 W4 e1 by simp
qed










































end
